theory Spec2Isabelle
  imports Main "HOL-Library.Word" "HOL-Library.Finite_Map"
begin

unbundle bit_operations_syntax

section \<open>Bytes, errors and fixed-width integers\<close>

text \<open>
  A Python \<open>bytes\<close> object is a sequence of integers in \<open>0..255\<close>: a list of 8-bit words.
  Python integers are unbounded: lengths, counts and single bits are \<open>nat\<close>.
  Exceptions are values of the type \<open>error\<close>; a function that may raise returns
  \<open>error + 'a\<close> with \<open>Inl\<close> for the exception.
\<close>

type_synonym byte = "8 word"

datatype error =
    ValueError string
  | OverflowError
  | ZeroDivisionError
  | UnicodeDecodeError
  | JSONDecodeError
  | KeyError string
  | TypeError
  | OSError

text \<open>\<open>n.to_bytes(4, byteorder='big')\<close>: raises OverflowError when \<open>n\<close> needs more than 4 bytes.\<close>

definition to_bytes4 :: "nat \<Rightarrow> error + byte list" where
  "to_bytes4 n =
     (if n < 2 ^ 32
      then Inr [of_nat (n div 2 ^ 24), of_nat (n div 2 ^ 16), of_nat (n div 2 ^ 8), of_nat n]
      else Inl OverflowError)"

text \<open>\<open>int.from_bytes(bs, byteorder='big')\<close>, for a byte string of any length.\<close>

definition from_bytes :: "byte list \<Rightarrow> nat" where
  "from_bytes bs = foldl (\<lambda>acc b. acc * 256 + unat b) 0 bs"

text \<open>The slice \<open>xs[a:b]\<close> for \<open>0 \<le> a\<close>, \<open>0 \<le> b\<close>; it never raises.\<close>

definition py_slice :: "'a list \<Rightarrow> nat \<Rightarrow> nat \<Rightarrow> 'a list" where
  "py_slice xs a b = take (b - a) (drop a xs)"

section \<open>The LSB codec\<close>

text \<open>
  The carrier image after \<open>np.array(img)\<close> in mode RGB: an array of shape
  \<open>(height, width, 3)\<close> of unsigned 8-bit values, kept in row-major order, so that
  \<open>pixels[i, j, k]\<close> is the element \<open>(i * width + j) * 3 + k\<close> of the flat list.
\<close>

record image =
  height :: nat
  width :: nat
  pixels :: "byte list"

definition wf_image :: "image \<Rightarrow> bool" where
  "wf_image img \<longleftrightarrow> length (pixels img) = height img * width img * 3"

definition chan :: "nat \<Rightarrow> nat \<Rightarrow> nat \<Rightarrow> nat \<Rightarrow> nat" where
  "chan w i j k = (i * w + j) * 3 + k"

text \<open>\<open>can_hide_data\<close>: \<open>max_bytes = (img.width * img.height * 3) // 8\<close> and
  \<open>max_bytes >= data_size + 4\<close>.\<close>

definition max_bytes :: "image \<Rightarrow> nat" where
  "max_bytes img = (width img * height img * 3) div 8"

definition can_hide_data :: "image \<Rightarrow> nat \<Rightarrow> bool" where
  "can_hide_data img data_size \<longleftrightarrow> max_bytes img \<ge> data_size + 4"

text \<open>The bit array of \<open>hide_data_in_image\<close>: for each byte, \<open>(byte >> i) & 1\<close> for
  \<open>i\<close> in \<open>range(8)\<close>.\<close>

definition byte_bits :: "byte \<Rightarrow> nat list" where
  "byte_bits b = map (\<lambda>i. drop_bit i (unat b) AND 1) [0..<8]"

definition to_bits :: "byte list \<Rightarrow> nat list" where
  "to_bits full_data = concat (map byte_bits full_data)"

text \<open>\<open>while len(bits) % 3 != 0: bits.append(0)\<close>\<close>

function pad_bits :: "nat list \<Rightarrow> nat list" where
  "pad_bits bits = (if length bits mod 3 \<noteq> 0 then pad_bits (bits @ [0]) else bits)"
  by pat_completeness auto
termination
proof (relation "measure (\<lambda>bits. (3 - length bits mod 3) mod 3)", goal_cases)
  case 1
  show ?case by simp
next
  case (2 bits)
  have "length bits mod 3 = 1 \<or> length bits mod 3 = 2" using 2 by linarith
  then show ?case by (auto simp: mod_Suc)
qed

declare pad_bits.simps [simp del]

text \<open>The innermost loop of the embedding, \<open>for k in range(min(3, len(bits) - idx))\<close>:
  \<open>pixels[i, j, k] = (pixels[i, j, k] & 254) | bits[idx + k]\<close>.\<close>

definition hide_pixel :: "nat list \<Rightarrow> nat \<Rightarrow> nat \<Rightarrow> nat \<Rightarrow> nat \<Rightarrow> byte list \<Rightarrow> byte list" where
  "hide_pixel bits idx w i j px =
     fold (\<lambda>k px. px[chan w i j k := (px ! chan w i j k AND 254) OR of_nat (bits ! (idx + k))])
       [0..<min 3 (length bits - idx)] px"

text \<open>\<open>for j in range(width)\<close>, with its \<open>break\<close> once every bit is written. The first
  numeric argument counts the iterations that remain, \<open>j\<close> is the column.\<close>

fun hide_row :: "nat list \<Rightarrow> nat \<Rightarrow> nat \<Rightarrow> nat \<Rightarrow> nat \<Rightarrow> nat \<times> byte list \<Rightarrow> nat \<times> byte list" where
  "hide_row bits w i 0 j (idx, px) = (idx, px)"
| "hide_row bits w i (Suc n) j (idx, px) =
     (if idx < length bits
      then hide_row bits w i n (Suc j) (idx + 3, hide_pixel bits idx w i j px)
      else (idx, px))"

text \<open>\<open>for i in range(height)\<close>, with \<open>if idx >= len(bits): break\<close> after each row.\<close>

fun hide_rows :: "nat list \<Rightarrow> nat \<Rightarrow> nat \<Rightarrow> nat \<Rightarrow> nat \<times> byte list \<Rightarrow> nat \<times> byte list" where
  "hide_rows bits w 0 i s = s"
| "hide_rows bits w (Suc m) i s =
     (let s' = hide_row bits w i w 0 s
      in if fst s' \<ge> length bits then s' else hide_rows bits w m (Suc i) s')"

text \<open>
  \<open>hide_data_in_image\<close>. The result \<open>Some out\<close> stands for \<open>return True\<close> with \<open>out\<close>
  saved at the output path, \<open>None\<close> for \<open>return False\<close> (nothing is saved). The size
  prefix is built first; its OverflowError is caught by the \<open>except\<close> clause, which
  returns False. The capacity check is called with \<open>len(full_data)\<close>.
\<close>

definition hide_data_in_image :: "image \<Rightarrow> byte list \<Rightarrow> image option" where
  "hide_data_in_image img data =
     (case to_bytes4 (length data) of
        Inl e \<Rightarrow> None
      | Inr data_size \<Rightarrow>
          let full_data = data_size @ data in
          if \<not> can_hide_data img (length full_data) then None
          else
            let bits = pad_bits (to_bits full_data);
                (idx, px) = hide_rows bits (width img) (height img) 0 (0, pixels img)
            in Some (img\<lparr>pixels := px\<rparr>))"

text \<open>The extraction. \<open>int(pixels[i, j, k] & 1)\<close>:\<close>

definition lsb :: "byte \<Rightarrow> nat" where
  "lsb p = unat (p AND 1)"

definition read_pixel :: "nat \<Rightarrow> nat \<Rightarrow> nat \<Rightarrow> byte list \<Rightarrow> nat list" where
  "read_pixel w i j px = map (\<lambda>k. lsb (px ! chan w i j k)) [0..<3]"

text \<open>The first scan: three bits per pixel, leaving both loops once 32 bits are there.\<close>

fun read_row :: "nat \<Rightarrow> nat \<Rightarrow> nat \<Rightarrow> nat \<Rightarrow> byte list \<Rightarrow> nat list \<Rightarrow> nat list" where
  "read_row w i 0 j px eb = eb"
| "read_row w i (Suc n) j px eb =
     (let eb' = eb @ read_pixel w i j px
      in if length eb' \<ge> 32 then eb' else read_row w i n (Suc j) px eb')"

fun read_rows :: "nat \<Rightarrow> nat \<Rightarrow> nat \<Rightarrow> byte list \<Rightarrow> nat list \<Rightarrow> nat list" where
  "read_rows w 0 i px eb = eb"
| "read_rows w (Suc m) i px eb =
     (let eb' = read_row w i w 0 px eb
      in if length eb' \<ge> 32 then eb' else read_rows w m (Suc i) px eb')"

text \<open>One byte of the size: \<open>byte |= (size_bits[i + j] << j)\<close> for \<open>j\<close> in \<open>range(8)\<close>,
  where \<open>i + j < len(size_bits)\<close>.\<close>

definition size_byte :: "nat list \<Rightarrow> nat \<Rightarrow> nat" where
  "size_byte size_bits i =
     fold (\<lambda>j byte. if i + j < length size_bits then byte OR push_bit j (size_bits ! (i + j)) else byte)
       [0..<8] 0"

text \<open>The second scan, \<open>while len(extracted_bits) < total_bits_needed\<close>. The row and the
  column come from the number of bits read so far; a width of 0 makes the division raise.\<close>

definition read_channels :: "image \<Rightarrow> nat \<Rightarrow> nat \<Rightarrow> nat \<Rightarrow> nat list \<Rightarrow> nat list" where
  "read_channels img need i j eb =
     fold (\<lambda>k eb. if length eb < need then eb @ [lsb (pixels img ! chan (width img) i j k)] else eb)
       [0..<3] eb"

function read_rest :: "image \<Rightarrow> nat \<Rightarrow> nat list \<Rightarrow> error + nat list" where
  "read_rest img need eb =
     (if length eb < need then
        if width img = 0 then Inl ZeroDivisionError
        else
          let i = (length eb div 3) div width img;
              j = (length eb div 3) mod width img
          in if i \<ge> height img then Inr eb
             else read_rest img need (read_channels img need i j eb)
      else Inr eb)"
  by pat_completeness auto
termination
proof (relation "measure (\<lambda>(img, need, eb). need - length eb)", goal_cases)
  case 1
  show ?case by simp
next
  case (2 img need eb i j)
  from 2(1) have "length eb < length (read_channels img need i j eb)"
    by (simp add: read_channels_def upt_rec numeral_3_eq_3)
  with 2(1) show ?case by simp
qed

declare read_rest.simps [simp del]

text \<open>The bytes of the payload: for \<open>i\<close> in \<open>range(0, len(data_bits), 8)\<close>, a byte from
  \<open>data_bits[i .. i + 7]\<close> when \<open>i + 8 <= len(data_bits)\<close>.\<close>

definition data_byte :: "nat list \<Rightarrow> nat \<Rightarrow> nat" where
  "data_byte data_bits i = fold (\<lambda>j byte. byte OR push_bit j (data_bits ! (i + j))) [0..<8] 0"

definition range8 :: "nat \<Rightarrow> nat list" where
  "range8 n = map (\<lambda>q. 8 * q) [0..<(n + 7) div 8]"

definition bits_to_bytes :: "nat list \<Rightarrow> byte list" where
  "bits_to_bytes data_bits =
     map (\<lambda>i. of_nat (data_byte data_bits i))
       (filter (\<lambda>i. i + 8 \<le> length data_bits) (range8 (length data_bits)))"

text \<open>The body of the \<open>try\<close> block of \<open>extract_data_from_image\<close>.\<close>

definition extract_body :: "image \<Rightarrow> error + byte list" where
  "extract_body img =
     (let extracted_bits = read_rows (width img) (height img) 0 (pixels img) [];
          size_bits = take 32 extracted_bits;
          size_bytes = map (\<lambda>i. of_nat (size_byte size_bits i)) [0, 8, 16, 24];
          data_size = from_bytes size_bytes;
          total_bits_needed = 32 + data_size * 8
      in case read_rest img total_bits_needed extracted_bits of
           Inl e \<Rightarrow> Inl e
         | Inr extracted_bits \<Rightarrow> Inr (bits_to_bytes (py_slice extracted_bits 32 total_bits_needed)))"

text \<open>\<open>extract_data_from_image\<close>: any exception is caught and \<open>b''\<close> returned.\<close>

definition extract_data_from_image :: "image \<Rightarrow> byte list" where
  "extract_data_from_image img = (case extract_body img of Inl e \<Rightarrow> [] | Inr d \<Rightarrow> d)"

section \<open>The cipher envelope\<close>

text \<open>
  The key derivation, the block cipher and the padding come from libraries (hashlib,
  Crypto.Cipher.AES, Crypto.Util.Padding). The first two are parameters of the model:
  \<open>pbkdf2 password salt\<close> stands for
  \<open>hashlib.pbkdf2_hmac('sha256', password.encode(), salt, 100000)\<close>,
  \<open>aes_cbc_encrypt key iv\<close> and \<open>aes_cbc_decrypt key iv\<close> for the \<open>encrypt\<close> and
  \<open>decrypt\<close> methods of \<open>AES.new(key, AES.MODE_CBC, iv)\<close> on data of a whole number of
  blocks. The checks the library makes on lengths, and the PKCS#7 padding, are written out.
\<close>

record crypto =
  pbkdf2 :: "string \<Rightarrow> byte list \<Rightarrow> byte list"
  aes_cbc_encrypt :: "byte list \<Rightarrow> byte list \<Rightarrow> byte list \<Rightarrow> byte list"
  aes_cbc_decrypt :: "byte list \<Rightarrow> byte list \<Rightarrow> byte list \<Rightarrow> byte list"

text \<open>\<open>ENCRYPTION_HEADER = b"INVISIOVAULT"\<close>\<close>

definition ENCRYPTION_HEADER :: "byte list" where
  "ENCRYPTION_HEADER = [73, 78, 86, 73, 83, 73, 79, 86, 65, 85, 76, 84]"

definition startswith :: "'a list \<Rightarrow> 'a list \<Rightarrow> bool" where
  "startswith xs p \<longleftrightarrow> take (length p) xs = p"

text \<open>An \<open>except ValueError\<close> clause also catches the subclasses of ValueError.\<close>

fun is_ValueError :: "error \<Rightarrow> bool" where
  "is_ValueError (ValueError m) = True"
| "is_ValueError UnicodeDecodeError = True"
| "is_ValueError JSONDecodeError = True"
| "is_ValueError e = False"

fun is_KeyError :: "error \<Rightarrow> bool" where
  "is_KeyError (KeyError k) = True"
| "is_KeyError e = False"

text \<open>\<open>AES.new(key, AES.MODE_CBC, iv)\<close> refuses a key that is not 16, 24 or 32 bytes
  long and an initialization vector that is not 16 bytes long. (The messages of the
  library's exceptions are shortened.)\<close>

definition aes_new :: "byte list \<Rightarrow> byte list \<Rightarrow> error + (byte list \<times> byte list)" where
  "aes_new key iv =
     (if length key \<noteq> 16 \<and> length key \<noteq> 24 \<and> length key \<noteq> 32
      then Inl (ValueError ''Incorrect AES key length'')
      else if length iv \<noteq> 16 then Inl (ValueError ''Incorrect IV length'')
      else Inr (key, iv))"

text \<open>\<open>cipher.encrypt\<close> and \<open>cipher.decrypt\<close> in CBC mode refuse data whose length is not
  a multiple of the block size.\<close>

definition cipher_encrypt :: "crypto \<Rightarrow> byte list \<times> byte list \<Rightarrow> byte list \<Rightarrow> error + byte list" where
  "cipher_encrypt lib cipher plaintext =
     (if length plaintext mod 16 \<noteq> 0
      then Inl (ValueError ''Data must be padded to 16 byte boundary in CBC mode'')
      else Inr (aes_cbc_encrypt lib (fst cipher) (snd cipher) plaintext))"

definition cipher_decrypt :: "crypto \<Rightarrow> byte list \<times> byte list \<Rightarrow> byte list \<Rightarrow> error + byte list" where
  "cipher_decrypt lib cipher ciphertext =
     (if length ciphertext mod 16 \<noteq> 0
      then Inl (ValueError ''Data must be padded to 16 byte boundary in CBC mode'')
      else Inr (aes_cbc_decrypt lib (fst cipher) (snd cipher) ciphertext))"

text \<open>\<open>pad(data, block_size)\<close> and \<open>unpad(padded, block_size)\<close> of Crypto.Util.Padding,
  in their default style pkcs7.\<close>

definition pad :: "byte list \<Rightarrow> nat \<Rightarrow> byte list" where
  "pad data_to_pad block_size =
     (let padding_len = block_size - length data_to_pad mod block_size
      in data_to_pad @ replicate padding_len (of_nat padding_len))"

definition unpad :: "byte list \<Rightarrow> nat \<Rightarrow> error + byte list" where
  "unpad padded_data block_size =
     (let pdata_len = length padded_data in
      if pdata_len = 0 then Inl (ValueError ''Zero-length input cannot be unpadded'')
      else if pdata_len mod block_size \<noteq> 0 then Inl (ValueError ''Input data is not padded'')
      else
        let padding_len = unat (last padded_data) in
        if padding_len < 1 \<or> padding_len > min block_size pdata_len
        then Inl (ValueError ''Padding is incorrect.'')
        else if drop (pdata_len - padding_len) padded_data \<noteq> replicate padding_len (of_nat padding_len)
        then Inl (ValueError ''PKCS#7 padding is incorrect.'')
        else Inr (take (pdata_len - padding_len) padded_data))"

text \<open>\<open>derive_key\<close>: a salt of 16 random bytes (\<open>fresh\<close>, the value \<open>os.urandom(16)\<close>
  returns) is drawn when none is given.\<close>

definition derive_key :: "crypto \<Rightarrow> string \<Rightarrow> byte list option \<Rightarrow> byte list \<Rightarrow> byte list \<times> byte list" where
  "derive_key lib password salt fresh =
     (let salt = (case salt of None \<Rightarrow> fresh | Some s \<Rightarrow> s)
      in (pbkdf2 lib password salt, salt))"

text \<open>\<open>encrypt_data\<close>: \<open>salt\<close> and \<open>iv\<close> are the two values \<open>os.urandom(16)\<close> returns.
  Nothing is caught here.\<close>

definition encrypt_data :: "crypto \<Rightarrow> byte list \<Rightarrow> string \<Rightarrow> byte list \<Rightarrow> byte list \<Rightarrow> error + byte list" where
  "encrypt_data lib data password salt iv =
     (let key = fst (derive_key lib password (Some salt) salt) in
      case aes_new key iv of
        Inl e \<Rightarrow> Inl e
      | Inr cipher \<Rightarrow>
          (case cipher_encrypt lib cipher (pad data 16) of
             Inl e \<Rightarrow> Inl e
           | Inr encrypted_data \<Rightarrow> Inr (ENCRYPTION_HEADER @ salt @ iv @ encrypted_data)))"

text \<open>\<open>decrypt_data\<close>: the cipher object is made outside the \<open>try\<close> block; inside it a
  ValueError or KeyError of \<open>decrypt\<close> or \<open>unpad\<close> becomes
  \<open>ValueError("Incorrect password or corrupted data")\<close>.\<close>

definition decrypt_data :: "crypto \<Rightarrow> byte list \<Rightarrow> string \<Rightarrow> error + byte list" where
  "decrypt_data lib encrypted_data password =
     (if \<not> startswith encrypted_data ENCRYPTION_HEADER
      then Inl (ValueError ''Invalid data format'')
      else
        let data = drop (length ENCRYPTION_HEADER) encrypted_data;
            salt = take 16 data;
            iv = py_slice data 16 32;
            actual_encrypted_data = drop 32 data;
            key = fst (derive_key lib password (Some salt) salt)
        in case aes_new key iv of
             Inl e \<Rightarrow> Inl e
           | Inr cipher \<Rightarrow>
               (case (case cipher_decrypt lib cipher actual_encrypted_data of
                        Inl e \<Rightarrow> Inl e
                      | Inr padded \<Rightarrow> unpad padded 16) of
                  Inl e \<Rightarrow>
                    if is_ValueError e \<or> is_KeyError e
                    then Inl (ValueError ''Incorrect password or corrupted data'')
                    else Inl e
                | Inr decrypted_data \<Rightarrow> Inr decrypted_data))"


section \<open>File records and the archive\<close>

text \<open>
  The values \<open>json.loads\<close> returns. A float is kept as its literal; nothing here looks
  into one. A dictionary is its list of items.
\<close>

datatype json =
    JNull
  | JBool bool
  | JInt int
  | JFloat string
  | JStr string
  | JList "json list"
  | JDict "(string \<times> json) list"

text \<open>
  The other library functions the file layer calls, as parameters: \<open>json_dumps m\<close> is
  \<open>json.dumps(m).encode()\<close>, \<open>json_loads b\<close> is \<open>json.loads(b.decode())\<close> (it raises
  UnicodeDecodeError or JSONDecodeError), \<open>path_join\<close>, \<open>path_splitext\<close> and
  \<open>path_basename\<close> are the functions of \<open>os.path\<close>, and \<open>can_create p\<close> tells whether
  \<open>open(p, 'wb')\<close> succeeds on a path that does not exist yet.
\<close>

record lib =
  cipher_lib :: crypto
  json_dumps :: "json \<Rightarrow> byte list"
  json_loads :: "byte list \<Rightarrow> error + json"
  path_join :: "string \<Rightarrow> string \<Rightarrow> string"
  path_splitext :: "string \<Rightarrow> string \<times> string"
  path_basename :: "string \<Rightarrow> string"
  can_create :: "string \<Rightarrow> bool"

text \<open>\<open>if password:\<close> holds for a password that is given and not empty.\<close>

fun truthy :: "string option \<Rightarrow> bool" where
  "truthy None = False"
| "truthy (Some pw) = (pw \<noteq> [])"



text \<open>\<open>extract_file_data\<close>: only a JSONDecodeError becomes
  \<open>ValueError("Invalid metadata format")\<close>; a UnicodeDecodeError passes through.\<close>

definition extract_file_data :: "lib \<Rightarrow> byte list \<Rightarrow> string option \<Rightarrow> error + (json \<times> byte list)" where
  "extract_file_data lib data password =
     (case (case password of
              Some pw \<Rightarrow>
                if truthy password \<and> startswith data ENCRYPTION_HEADER
                then (case decrypt_data (cipher_lib lib) data pw of
                        Inl e \<Rightarrow>
                          if is_ValueError e
                          then Inl (ValueError ''Incorrect password or corrupted data'')
                          else Inl e
                      | Inr d \<Rightarrow> Inr d)
                else Inr data
            | None \<Rightarrow> Inr data) of
        Inl e \<Rightarrow> Inl e
      | Inr data \<Rightarrow>
          let metadata_length = from_bytes (py_slice data 0 4);
              metadata_bytes = py_slice data 4 (4 + metadata_length);
              file_data = drop (4 + metadata_length) data
          in case json_loads lib metadata_bytes of
               Inl e \<Rightarrow>
                 (case e of
                    JSONDecodeError \<Rightarrow> Inl (ValueError ''Invalid metadata format'')
                  | _ \<Rightarrow> Inl e)
             | Inr metadata \<Rightarrow> Inr (metadata, file_data))"

text \<open>The archive of \<open>_hide_files\<close>: \<open>len(all_files_data).to_bytes(4, 'big')\<close>, then for
  each record its size on 4 bytes and the record.\<close>

fun pack_records :: "byte list list \<Rightarrow> byte list \<Rightarrow> error + byte list" where
  "pack_records [] combined_data = Inr combined_data"
| "pack_records (data # rest) combined_data =
     (case to_bytes4 (length data) of
        Inl e \<Rightarrow> Inl e
      | Inr size_bytes \<Rightarrow> pack_records rest (combined_data @ size_bytes @ data))"

definition pack_archive :: "byte list list \<Rightarrow> error + byte list" where
  "pack_archive all_files_data =
     (case to_bytes4 (length all_files_data) of
        Inl e \<Rightarrow> Inl e
      | Inr combined_data \<Rightarrow> pack_records all_files_data combined_data)"

section \<open>Writing the recovered files\<close>

text \<open>
  The file system: the paths that exist, each with its content. \<open>os.path.exists p\<close> is
  membership in the domain; a path is identified with its string.
\<close>

type_synonym fs = "(string, byte list) fmap"

definition path_exists :: "fs \<Rightarrow> string \<Rightarrow> bool" where
  "path_exists fs p \<longleftrightarrow> fmlookup fs p \<noteq> None"

text \<open>\<open>str(counter)\<close>, the decimal digits of a natural number.\<close>

definition digit_char :: "nat \<Rightarrow> char" where
  "digit_char d = char_of (48 + d)"

function str_nat :: "nat \<Rightarrow> string" where
  "str_nat n = (if n < 10 then [digit_char n] else str_nat (n div 10) @ [digit_char (n mod 10)])"
  by pat_completeness auto
termination
  by (relation "measure id") auto

declare str_nat.simps [simp del]

text \<open>\<open>f"{base}_{counter}{ext}"\<close>\<close>

definition suffixed :: "string \<Rightarrow> string \<Rightarrow> nat \<Rightarrow> string" where
  "suffixed base ext counter = base @ ''_'' @ str_nat counter @ ext"

lemma digit_char_inj: "a < 10 \<Longrightarrow> b < 10 \<Longrightarrow> digit_char a = digit_char b \<Longrightarrow> a = b"
proof -
  assume a: "a < 10" and b: "b < 10" and e: "digit_char a = digit_char b"
  from e have "(of_char (char_of (48 + a)) :: nat) = of_char (char_of (48 + b))"
    by (simp add: digit_char_def)
  then show "a = b" using a b by (simp add: of_char_of)
qed

lemma str_nat_nonempty: "str_nat n \<noteq> []"
  by (subst str_nat.simps) simp

lemma str_nat_inj: "str_nat m = str_nat n \<Longrightarrow> m = n"
proof (induction m arbitrary: n rule: str_nat.induct)
  case (1 m)
  show ?case
  proof (cases "m < 10")
    case True
    then have sm: "str_nat m = [digit_char m]" by (subst str_nat.simps) simp
    show ?thesis
    proof (cases "n < 10")
      case n: True
      then have "str_nat n = [digit_char n]" by (subst str_nat.simps) simp
      with sm 1(2) True n show ?thesis by (auto dest: digit_char_inj)
    next
      case n: False
      then have "str_nat n = str_nat (n div 10) @ [digit_char (n mod 10)]"
        by (subst str_nat.simps) simp
      with sm 1(2) show ?thesis using str_nat_nonempty [of "n div 10"] by simp
    qed
  next
    case False
    then have sm: "str_nat m = str_nat (m div 10) @ [digit_char (m mod 10)]"
      by (subst str_nat.simps) simp
    show ?thesis
    proof (cases "n < 10")
      case n: True
      then have "str_nat n = [digit_char n]" by (subst str_nat.simps) simp
      with sm 1(2) show ?thesis using str_nat_nonempty [of "m div 10"] by simp
    next
      case n: False
      then have "str_nat n = str_nat (n div 10) @ [digit_char (n mod 10)]"
        by (subst str_nat.simps) simp
      with sm 1(2) have e: "str_nat (m div 10) = str_nat (n div 10)"
        and d: "digit_char (m mod 10) = digit_char (n mod 10)" by simp_all
      from 1(1) [OF False e] have "m div 10 = n div 10" .
      moreover have "m mod 10 = n mod 10" by (rule digit_char_inj [OF _ _ d]) simp_all
      ultimately show ?thesis by (metis div_mult_mod_eq)
    qed
  qed
qed

lemma suffixed_inj: "suffixed base ext a = suffixed base ext b \<Longrightarrow> a = b"
  by (auto simp: suffixed_def dest: str_nat_inj)

lemma finite_suffixed_existing: "finite {c. path_exists fs (suffixed base ext c)}"
proof -
  have "{c. path_exists fs (suffixed base ext c)} = suffixed base ext -` fmdom' fs"
    by (auto simp: path_exists_def fmlookup_dom'_iff)
  moreover have "inj (suffixed base ext)"
    by (rule injI) (rule suffixed_inj)
  ultimately show ?thesis by (simp add: finite_vimageI)
qed

text \<open>The search for a name that is free:
  \<open>while os.path.exists(file_path): file_path = f"{base}_{counter}{ext}"; counter += 1\<close>.
  It ends because the file system holds finitely many paths.\<close>

function unique_path :: "fs \<Rightarrow> string \<Rightarrow> string \<Rightarrow> nat \<Rightarrow> string \<Rightarrow> string" where
  "unique_path fs base ext counter file_path =
     (if path_exists fs file_path
      then unique_path fs base ext (counter + 1) (suffixed base ext counter)
      else file_path)"
  by pat_completeness auto
termination
proof (relation "measure (\<lambda>(fs, base, ext, counter, file_path).
          (Suc (Max (insert 0 {c. path_exists fs (suffixed base ext c)})) - counter)
          + (if path_exists fs file_path then 1 else 0))", goal_cases)
  case 1
  show ?case by simp
next
  case (2 fs base ext counter file_path)
  let ?S = "{c. path_exists fs (suffixed base ext c)}"
  have fin: "finite (insert 0 ?S)" by (simp add: finite_suffixed_existing)
  show ?case
  proof (cases "path_exists fs (suffixed base ext counter)")
    case True
    then have "counter \<in> insert 0 ?S" by simp
    then have "counter \<le> Max (insert 0 ?S)" using fin by (rule Max_ge [rotated])
    then show ?thesis using 2 True by simp
  next
    case False
    then show ?thesis using 2 by simp
  qed
qed

declare unique_path.simps [simp del]

text \<open>\<open>metadata["filename"]\<close>: a dictionary without the key raises KeyError, any other
  value TypeError.\<close>

definition subscript_filename :: "json \<Rightarrow> error + json" where
  "subscript_filename metadata =
     (case metadata of
        JDict items \<Rightarrow>
          (case map_of items ''filename'' of
             None \<Rightarrow> Inl (KeyError ''filename'')
           | Some v \<Rightarrow> Inr v)
      | _ \<Rightarrow> Inl TypeError)"

text \<open>\<open>os.path.join(output_dir, name)\<close> raises TypeError for a name that is not a string.\<close>

definition join_output :: "lib \<Rightarrow> string \<Rightarrow> json \<Rightarrow> error + string" where
  "join_output lib output_dir v =
     (case v of JStr name \<Rightarrow> Inr (path_join lib output_dir name) | _ \<Rightarrow> Inl TypeError)"

text \<open>The body of the \<open>try\<close> block in the loop of \<open>_extract_files\<close>: unpack the record,
  choose a path that does not exist, write the content there.\<close>

definition write_record :: "lib \<Rightarrow> string \<Rightarrow> byte list \<Rightarrow> fs \<Rightarrow> error + (string \<times> fs)" where
  "write_record lib output_dir file_data fs =
     (case extract_file_data lib file_data None of
        Inl e \<Rightarrow> Inl e
      | Inr (metadata, content) \<Rightarrow>
          (case subscript_filename metadata of
             Inl e \<Rightarrow> Inl e
           | Inr v \<Rightarrow>
               (case join_output lib output_dir v of
                  Inl e \<Rightarrow> Inl e
                | Inr file_path \<Rightarrow>
                    let (base, ext) = path_splitext lib file_path;
                        file_path = unique_path fs base ext 1 file_path
                    in if can_create lib file_path
                       then Inr (file_path, fmupd file_path content fs)
                       else Inl OSError)))"

text \<open>The status lines, by their format: \<open>Extracted s\<close> is \<open>f"Extracted: {s}"\<close>,
  \<open>Error_extracting_file k e\<close> is \<open>f"Error extracting file {k}: {str(e)}"\<close>, and so on.
  The progress percentages are left out.\<close>

datatype status =
    Extracting_data
  | Decrypting_data
  | Found_hidden_files nat
  | Extracted string
  | Error_extracting_file nat error
  | Successfully_extracted nat
  | Error error

text \<open>\<open>finished_signal.emit(True, "\n".join(extracted_files))\<close> and
  \<open>finished_signal.emit(False, str(e))\<close>.\<close>

datatype finished = Success "string list" | Failure error

record xstate =
  offset :: nat
  extracted_files :: "string list"
  status_log :: "status list"
  files :: fs

text \<open>The \<open>try\<close> block with its \<open>except Exception\<close> clause, for the record of index \<open>i\<close>.\<close>

definition save_record :: "lib \<Rightarrow> string \<Rightarrow> nat \<Rightarrow> byte list \<Rightarrow> xstate \<Rightarrow> xstate" where
  "save_record lib output_dir i file_data s =
     (case write_record lib output_dir file_data (files s) of
        Inl e \<Rightarrow> s\<lparr>status_log := status_log s @ [Error_extracting_file (i + 1) e]\<rparr>
      | Inr (file_path, fs') \<Rightarrow>
          s\<lparr>extracted_files := extracted_files s @ [file_path],
            status_log := status_log s @ [Extracted (path_basename lib file_path)],
            files := fs'\<rparr>)"

text \<open>\<open>for i in range(num_files)\<close>, leaving the loop when the offset has reached the end
  of the data. The first numeric argument counts the iterations that remain.\<close>

fun extract_loop :: "lib \<Rightarrow> string \<Rightarrow> byte list \<Rightarrow> nat \<Rightarrow> nat \<Rightarrow> xstate \<Rightarrow> xstate" where
  "extract_loop lib output_dir data 0 i s = s"
| "extract_loop lib output_dir data (Suc n) i s =
     (if offset s \<ge> length data then s
      else
        let file_size = from_bytes (py_slice data (offset s) (offset s + 4));
            offset1 = offset s + 4;
            file_data = py_slice data offset1 (offset1 + file_size);
            offset2 = offset1 + file_size
        in extract_loop lib output_dir data n (Suc i)
             (save_record lib output_dir i file_data (s\<lparr>offset := offset2\<rparr>)))"

record outcome =
  emitted :: "status list"
  finished_signal :: finished
  final_files :: fs

text \<open>The last part of \<open>_extract_files\<close>, from \<open>num_files = ...\<close> on.\<close>

definition unpack_files :: "lib \<Rightarrow> string \<Rightarrow> byte list \<Rightarrow> status list \<Rightarrow> fs \<Rightarrow> outcome" where
  "unpack_files lib output_dir data log0 fs =
     (let num_files = from_bytes (py_slice data 0 4);
          s = extract_loop lib output_dir data num_files 0
                \<lparr>offset = 4, extracted_files = [],
                 status_log = log0 @ [Found_hidden_files num_files], files = fs\<rparr>
      in \<lparr>emitted = status_log s @ [Successfully_extracted (length (extracted_files s))],
          finished_signal = Success (extracted_files s),
          final_files = files s\<rparr>)"

definition failed_run :: "status list \<Rightarrow> error \<Rightarrow> fs \<Rightarrow> outcome" where
  "failed_run log0 e fs = \<lparr>emitted = log0 @ [Error e], finished_signal = Failure e, final_files = fs\<rparr>"

text \<open>\<open>_extract_files\<close> on the image at \<open>image_path\<close>.\<close>

definition extract_files :: "lib \<Rightarrow> image \<Rightarrow> string \<Rightarrow> string option \<Rightarrow> fs \<Rightarrow> outcome" where
  "extract_files lib img output_dir password fs =
     (let data = extract_data_from_image img in
      if data = [] then failed_run [Extracting_data] (ValueError ''No hidden data found in the image'') fs
      else if startswith data ENCRYPTION_HEADER then
        (case password of
           Some pw \<Rightarrow>
             if \<not> truthy password
             then failed_run [Extracting_data]
                    (ValueError ''This image contains encrypted data. Please provide a password.'') fs
             else
               (case decrypt_data (cipher_lib lib) data pw of
                  Inl e \<Rightarrow>
                    failed_run [Extracting_data, Decrypting_data]
                      (if is_ValueError e then ValueError ''Incorrect password or corrupted data'' else e) fs
                | Inr decrypted \<Rightarrow>
                    unpack_files lib output_dir decrypted [Extracting_data, Decrypting_data] fs)
         | None \<Rightarrow>
             failed_run [Extracting_data]
               (ValueError ''This image contains encrypted data. Please provide a password.'') fs)
      else unpack_files lib output_dir data [Extracting_data] fs)"

text \<open>The record blocks the loop of \<open>_extract_files\<close> slices out of the data, in order:
  the loop without its \<open>try\<close> block.\<close>

fun unpack_blocks :: "byte list \<Rightarrow> nat \<Rightarrow> nat \<Rightarrow> byte list list" where
  "unpack_blocks data 0 off = []"
| "unpack_blocks data (Suc n) off =
     (if off \<ge> length data then []
      else
        let file_size = from_bytes (py_slice data off (off + 4));
            offset1 = off + 4;
            file_data = py_slice data offset1 (offset1 + file_size);
            offset2 = offset1 + file_size
        in file_data # unpack_blocks data n offset2)"


text \<open>Saving a list of blocks in order, the first with index \<open>i\<close>.\<close>

fun save_all :: "lib \<Rightarrow> string \<Rightarrow> nat \<Rightarrow> byte list list \<Rightarrow> xstate \<Rightarrow> xstate" where
  "save_all lib output_dir i [] s = s"
| "save_all lib output_dir i (file_data # rest) s =
     save_all lib output_dir (Suc i) rest (save_record lib output_dir i file_data s)"

text \<open>The four bytes of a number below \<open>2 ^ 32\<close>, and the block of a record in an archive.\<close>

definition be32 :: "nat \<Rightarrow> byte list" where
  "be32 n = [of_nat (n div 2 ^ 24), of_nat (n div 2 ^ 16), of_nat (n div 2 ^ 8), of_nat n]"

definition block :: "byte list \<Rightarrow> byte list" where
  "block r = be32 (length r) @ r"

section \<open>Auxiliary notions for the statements\<close>

text \<open>The pixels after the first \<open>m\<close> channels, in scan order, have received their bit:
  channel \<open>c < m\<close> holds \<open>(p & 254) | bits[c]\<close>, every later channel is as it was.\<close>

definition embedded :: "nat list \<Rightarrow> byte list \<Rightarrow> nat \<Rightarrow> byte list" where
  "embedded bits px m =
     map (\<lambda>c. if c < m then (px ! c AND 254) OR of_nat (bits ! c) else px ! c) [0..<length px]"

text \<open>The padded bit array \<open>bits\<close> of \<open>hide_data_in_image\<close> for a size prefix and a payload.\<close>

definition payload_bits :: "byte list \<Rightarrow> byte list \<Rightarrow> nat list" where
  "payload_bits pre data = pad_bits (to_bits (pre @ data))"

definition embedding_bits :: "byte list \<Rightarrow> nat list" where
  "embedding_bits data =
     (case to_bytes4 (length data) of Inl e \<Rightarrow> [] | Inr pre \<Rightarrow> payload_bits pre data)"

text \<open>The payload length an image declares: its first 32 least significant bits, read as
  \<open>extract_data_from_image\<close> reads them (a bit the image is too small to hold counts as 0).\<close>

definition declared_size :: "image \<Rightarrow> nat" where
  "declared_size img =
     from_bytes (map (\<lambda>i. of_nat (size_byte (take 32 (map lsb (pixels img))) i)) [0, 8, 16, 24])"


text \<open>Concrete carrier images, for evaluating the codec.\<close>

definition img_2x7 :: image where
  "img_2x7 = \<lparr>height = 2, width = 7, pixels = replicate 25 0 @ [1] @ replicate 6 0 @ replicate 10 1\<rparr>"

definition img_4x4 :: image where
  "img_4x4 = \<lparr>height = 4, width = 4, pixels = replicate 48 255\<rparr>"

definition img_4x6_white :: image where
  "img_4x6_white = \<lparr>height = 4, width = 6, pixels = replicate 72 255\<rparr>"

text \<open>A stand-in for the libraries, for evaluating the model on concrete inputs: a constant
  key and a byte-wise shift as the cipher.\<close>

definition toy :: crypto where
  "toy = \<lparr>pbkdf2 = (\<lambda>pw salt. replicate 32 7),
          aes_cbc_encrypt = (\<lambda>key iv xs. map (\<lambda>b. b + 1) xs),
          aes_cbc_decrypt = (\<lambda>key iv xs. map (\<lambda>b. b - 1) xs)\<rparr>"

text \<open>A stand-in for the JSON and path libraries (two metadata values with a one-byte
  encoding each), records, archives and a file system, for evaluating the file layer.\<close>

definition meta_a :: json where
  "meta_a = JDict [(''filename'', JStr ''a.txt''), (''size'', JInt 2), (''timestamp'', JStr ''t1'')]"

definition meta_b :: json where
  "meta_b = JDict [(''filename'', JStr ''a.txt''), (''size'', JInt 1), (''timestamp'', JStr ''t2'')]"

definition toy_lib :: lib where
  "toy_lib =
     \<lparr>cipher_lib = toy,
      json_dumps = (\<lambda>m. if m = meta_a then [97] else if m = meta_b then [98] else [63]),
      json_loads = (\<lambda>b. if b = [97] then Inr meta_a else if b = [98] then Inr meta_b
                         else Inl JSONDecodeError),
      path_join = (\<lambda>d n. d @ ''/'' @ n),
      path_splitext = (\<lambda>p. (rev (tl (dropWhile (\<lambda>c. c \<noteq> CHR ''.'') (rev p))),
                              CHR ''.'' # rev (takeWhile (\<lambda>c. c \<noteq> CHR ''.'') (rev p)))),
      path_basename = (\<lambda>p. rev (takeWhile (\<lambda>c. c \<noteq> CHR ''/'') (rev p))),
      can_create = (\<lambda>p. True)\<rparr>"

definition record_a :: "byte list" where "record_a = [0, 0, 0, 1, 97, 104, 105]"
definition record_b :: "byte list" where "record_b = [0, 0, 0, 1, 98, 33]"
definition record_bad :: "byte list" where "record_bad = [0, 0, 0, 1, 63, 7]"

definition archive_ab :: "byte list" where
  "archive_ab = [0, 0, 0, 2] @ [0, 0, 0, 7] @ record_a @ [0, 0, 0, 6] @ record_b"


definition archive_a_bad_b :: "byte list" where
  "archive_a_bad_b = [0, 0, 0, 3] @ [0, 0, 0, 7] @ record_a @ [0, 0, 0, 6] @ record_bad @ [0, 0, 0, 6] @ record_b"

definition fs_out :: fs where
  "fs_out = fmupd ''out/a.txt'' [1] (fmupd ''out/a_1.txt'' [2] fmempty)"

definition fs_out_a2 :: fs where
  "fs_out_a2 = fmupd ''out/a_2.txt'' [104, 105] fs_out"

definition fs_out_a3 :: fs where
  "fs_out_a3 = fmupd ''out/a_3.txt'' [33] fs_out_a2"


text \<open>A carrier that holds the archive of the two records: the image that
  \<open>hide_data_in_image\<close> saves for it.\<close>

definition carrier_8x11 :: image where
  "carrier_8x11 = \<lparr>height = 8, width = 11, pixels = replicate 264 255\<rparr>"

definition stego_ab :: image where
  "stego_ab = (case hide_data_in_image carrier_8x11 archive_ab of
                 Some out \<Rightarrow> out | None \<Rightarrow> carrier_8x11)"

section \<open>Bits and bytes\<close>

lemma upt8: "[0..<8] = [0,1,2,3,4,5,6,7]"
  by (simp add: upt_rec)

lemma upt3: "[0..<3] = [0,1,2]"
  by (simp add: upt_rec)

lemma byte254: "(254::byte) = NOT 1"
  by simp

lemma lsb_set0: "lsb (p AND 254) = 0"
proof -
  have "(p AND 254) AND 1 = (0::byte)"
    unfolding byte254 by (rule bit_word_eqI) (auto simp: bit_simps)
  then show ?thesis by (simp add: lsb_def)
qed

lemma lsb_set1: "lsb ((p AND 254) OR 1) = 1"
proof -
  have "((p AND 254) OR 1) AND 1 = (1::byte)"
    unfolding byte254 by (rule bit_word_eqI) (auto simp: bit_simps)
  then show ?thesis by (simp add: lsb_def)
qed

lemma lsb_set: "b \<le> 1 \<Longrightarrow> lsb ((p AND 254) OR of_nat b) = b"
proof -
  assume "b \<le> 1"
  then consider "b = 0" | "b = 1" by linarith
  then show ?thesis
    by cases (simp_all add: lsb_set0 lsb_set1)
qed

lemma upper_bits_set: "b \<le> 1 \<Longrightarrow> ((p AND 254) OR of_nat b) AND 254 = p AND (254::byte)"
proof -
  assume "b \<le> 1"
  then consider "b = 0" | "b = 1" by linarith
  then show ?thesis
  proof cases
    case 1
    then show ?thesis by (simp add: and.assoc)
  next
    case 2
    have "((p AND 254) OR 1) AND 254 = p AND (254::byte)"
      unfolding byte254 by (rule bit_word_eqI) (auto simp: bit_simps)
    then show ?thesis using 2 by simp
  qed
qed

lemma byte_bits_le1: "x \<in> set (byte_bits b) \<Longrightarrow> x \<le> 1"
  by (auto simp: byte_bits_def and_one_eq)

lemma length_byte_bits: "length (byte_bits b) = 8"
  by (simp add: byte_bits_def)

lemma byte_bits_nth: "j < 8 \<Longrightarrow> byte_bits b ! j = drop_bit j (unat b) AND 1"
  by (simp add: byte_bits_def)

lemma bit_and1: "(drop_bit j (n::nat) AND 1) = of_bool (bit n j)"
  by (simp add: and_one_eq bit_iff_odd_drop_bit mod_2_eq_odd)

lemma take_bit_Suc_or:
  "take_bit (Suc m) (n::nat) = take_bit m n OR push_bit m (of_bool (bit n m))"
proof (rule bit_eqI)
  fix k
  show "bit (take_bit (Suc m) n) k = bit (take_bit m n OR push_bit m (of_bool (bit n m))) k"
    by (cases "k = m") (auto simp: bit_simps less_Suc_eq)
qed

lemma assemble_upto:
  "fold (\<lambda>j byte. byte OR push_bit j (drop_bit j n AND 1)) [0..<m] 0 = take_bit m (n::nat)"
  unfolding bit_and1
proof (induction m)
  case 0
  show ?case by simp
next
  case (Suc m)
  have "fold (\<lambda>j byte. byte OR push_bit j (of_bool (bit n j))) [0..<Suc m] 0
        = take_bit m n OR push_bit m (of_bool (bit n m))"
    using Suc by simp
  then show ?case by (simp only: take_bit_Suc_or)
qed

lemma assemble_nat: "n < 256 \<Longrightarrow> fold (\<lambda>j byte. byte OR push_bit j (drop_bit j n AND 1)) [0..<8] 0 = (n::nat)"
  by (simp only: assemble_upto) (simp add: take_bit_nat_eq_self_iff)

lemma assemble_byte: "fold (\<lambda>j byte. byte OR push_bit j (drop_bit j (unat b) AND 1)) [0..<8] 0 = unat (b::byte)"
proof -
  have "unat b < 2 ^ 8" using unsigned_less [of b, where 'a = nat] by simp
  then show ?thesis by (intro assemble_nat) simp
qed


lemma length_to_bits: "length (to_bits bs) = 8 * length bs"
  by (induction bs) (simp_all add: to_bits_def length_byte_bits)

lemma to_bits_append: "to_bits (xs @ ys) = to_bits xs @ to_bits ys"
  by (simp add: to_bits_def)

lemma to_bits_Cons: "to_bits (b # bs) = byte_bits b @ to_bits bs"
  by (simp add: to_bits_def)

lemma to_bits_le1: "x \<in> set (to_bits bs) \<Longrightarrow> x \<le> 1"
  by (auto simp: to_bits_def dest: byte_bits_le1)

lemma to_bits_nth:
  "q < length bs \<Longrightarrow> j < 8 \<Longrightarrow> to_bits bs ! (8 * q + j) = byte_bits (bs ! q) ! j"
proof (induction bs arbitrary: q)
  case Nil
  then show ?case by simp
next
  case (Cons b bs)
  show ?case
  proof (cases q)
    case 0
    with Cons.prems show ?thesis
      by (simp add: to_bits_Cons nth_append length_byte_bits)
  next
    case (Suc q')
    with Cons.prems have "q' < length bs" by simp
    from Cons.IH [OF this Cons.prems(2)] Suc show ?thesis
      by (simp add: to_bits_Cons nth_append length_byte_bits)
  qed
qed

lemma data_byte_to_bits:
  assumes "q < length bs"
  shows "data_byte (to_bits bs) (8 * q) = unat (bs ! q)"
proof -
  have "fold (\<lambda>j byte. byte OR push_bit j (to_bits bs ! (8 * q + j))) [0..<8] 0
        = fold (\<lambda>j byte. byte OR push_bit j (drop_bit j (unat (bs ! q)) AND 1)) [0..<8] 0"
    by (rule fold_cong) (simp_all add: to_bits_nth [OF assms] byte_bits_nth)
  then show ?thesis by (simp only: data_byte_def assemble_byte)
qed

lemma size_byte_to_bits:
  assumes "q < length bs"
  shows "size_byte (to_bits bs) (8 * q) = unat (bs ! q)"
proof -
  have "fold (\<lambda>j byte. if 8 * q + j < length (to_bits bs)
                          then byte OR push_bit j (to_bits bs ! (8 * q + j)) else byte) [0..<8] 0
        = fold (\<lambda>j byte. byte OR push_bit j (drop_bit j (unat (bs ! q)) AND 1)) [0..<8] 0"
    using assms
    by (intro fold_cong) (auto simp: to_bits_nth [OF assms] byte_bits_nth length_to_bits)
  then show ?thesis by (simp only: size_byte_def assemble_byte)
qed

lemma range8_filter:
  "filter (\<lambda>i. i + 8 \<le> 8 * n) (range8 (8 * n)) = map (\<lambda>q. 8 * q) [0..<n]"
proof -
  have "(8 * n + 7) div 8 = n" by simp
  then show ?thesis by (auto simp: range8_def filter_map o_def intro!: filter_True)
qed

lemma bits_to_bytes_to_bits: "bits_to_bytes (to_bits bs) = bs"
proof -
  have "map (\<lambda>i. of_nat (data_byte (to_bits bs) i) :: byte) (map (\<lambda>q. 8 * q) [0..<length bs]) = bs"
    by (rule nth_equalityI) (simp_all add: data_byte_to_bits)
  then show ?thesis
    by (simp only: bits_to_bytes_def length_to_bits range8_filter)
qed

lemma pad_bits_eq: "pad_bits bits = bits @ replicate ((3 - length bits mod 3) mod 3) 0"
proof (induction bits rule: pad_bits.induct)
  case (1 bits)
  show ?case
  proof (cases "length bits mod 3 = 0")
    case True
    then show ?thesis by (subst pad_bits.simps) simp
  next
    case False
    then have m: "length bits mod 3 = 1 \<or> length bits mod 3 = 2" by linarith
    have "pad_bits bits = pad_bits (bits @ [0])"
      using False by (subst pad_bits.simps) simp
    also have "\<dots> = (bits @ [0]) @ replicate ((3 - length (bits @ [0]) mod 3) mod 3) 0"
      using 1 False by simp
    also have "\<dots> = bits @ replicate ((3 - length bits mod 3) mod 3) 0"
      using m by (auto simp: mod_Suc replicate_Suc [symmetric] simp del: replicate_Suc)
    finally show ?thesis .
  qed
qed

lemma length_pad_bits_mod: "length (pad_bits bits) mod 3 = 0"
proof -
  have "length bits mod 3 = 0 \<or> length bits mod 3 = 1 \<or> length bits mod 3 = 2" by linarith
  then show ?thesis
  proof (elim disjE)
    assume "length bits mod 3 = 0"
    then show ?thesis by (simp add: pad_bits_eq)
  next
    assume "length bits mod 3 = 1"
    then show ?thesis by (simp add: pad_bits_eq mod_Suc)
  next
    assume "length bits mod 3 = 2"
    then show ?thesis by (simp add: pad_bits_eq mod_Suc)
  qed
qed

lemma length_pad_bits_ge: "length bits \<le> length (pad_bits bits)"
  by (simp add: pad_bits_eq)

lemma length_pad_bits_lt: "length (pad_bits bits) < length bits + 3"
  by (simp add: pad_bits_eq)

lemma take_pad_bits: "m \<le> length bits \<Longrightarrow> take m (pad_bits bits) = take m bits"
  by (simp add: pad_bits_eq)

lemma pad_bits_le1: "\<forall>x\<in>set bits. x \<le> 1 \<Longrightarrow> x \<in> set (pad_bits bits) \<Longrightarrow> x \<le> 1"
  by (auto simp: pad_bits_eq)

lemma from_bytes4:
  "from_bytes [a, b, c, d] = ((unat a * 256 + unat b) * 256 + unat c) * 256 + unat d"
  by (simp add: from_bytes_def)

lemma unat_of_nat_byte: "unat (of_nat n :: byte) = n mod 256"
  by (simp add: unat_of_nat)

lemma split_bytes4:
  fixes n :: nat
  assumes "n < 2 ^ 32"
  shows "((n div 2 ^ 24 mod 256 * 256 + n div 2 ^ 16 mod 256) * 256 + n div 2 ^ 8 mod 256) * 256
           + n mod 256 = n"
proof -
  define a where "a = n div 256"
  define b where "b = a div 256"
  define c where "c = b div 256"
  have n: "n = a * 256 + n mod 256" by (simp add: a_def)
  have a: "a = b * 256 + a mod 256" by (simp add: b_def)
  have b: "b = c * 256 + b mod 256" by (simp add: c_def)
  have "c < 256" using assms by (simp add: a_def b_def c_def div_mult2_eq less_mult_imp_div_less)
  then have c: "c mod 256 = c" by simp
  have d8: "n div 2 ^ 8 = a" by (simp add: a_def)
  have d16: "n div 2 ^ 16 = b" by (simp add: a_def b_def div_mult2_eq)
  have d24: "n div 2 ^ 24 = c" by (simp add: a_def b_def c_def div_mult2_eq)
  show ?thesis unfolding d8 d16 d24 c using n a b by presburger
qed

lemma from_to_bytes4: "to_bytes4 n = Inr bs \<Longrightarrow> from_bytes bs = n"
proof -
  assume a: "to_bytes4 n = Inr bs"
  then have n: "n < 2 ^ 32" by (simp add: to_bytes4_def split: if_splits)
  have bs: "bs = [of_nat (n div 2 ^ 24), of_nat (n div 2 ^ 16), of_nat (n div 2 ^ 8), of_nat n]"
    using a n by (simp add: to_bytes4_def)
  show ?thesis unfolding bs from_bytes4 unat_of_nat_byte by (rule split_bytes4 [OF n])
qed

lemma length_to_bytes4: "to_bytes4 n = Inr bs \<Longrightarrow> length bs = 4"
  by (auto simp: to_bytes4_def split: if_splits)

text \<open>Every bit the extraction collects is \<open>pixel & 1\<close>, so 0 or 1; a byte assembled
  from eight such bits is below 256: \<open>bytearray.append\<close> never raises, and turning the
  assembled number into a byte loses nothing.\<close>

lemma lsb_le1: "lsb p \<le> 1"
proof -
  have "unat (p AND 1) \<le> unat (1 :: byte)"
    by (rule word_and_le1 [THEN word_le_nat_alt [THEN iffD1]])
  then show ?thesis by (simp add: lsb_def)
qed

lemma or_less_2p:
  fixes a b :: nat
  assumes "a < 2 ^ n" and "b < 2 ^ n"
  shows "a OR b < 2 ^ n"
proof -
  have "take_bit n (a OR b) = take_bit n a OR take_bit n b" by (simp add: take_bit_or)
  also have "\<dots> = a OR b" using assms by (simp add: take_bit_nat_eq_self)
  finally show ?thesis by (simp only: take_bit_nat_eq_self_iff)
qed

lemma fold_or_less:
  assumes "\<forall>j<m. f j \<le> (1::nat)"
  shows "fold (\<lambda>j byte. byte OR push_bit j (f j)) [0..<m] 0 < 2 ^ m"
  using assms
proof (induction m)
  case 0
  show ?case by simp
next
  case (Suc m)
  then have ih: "fold (\<lambda>j byte. byte OR push_bit j (f j)) [0..<m] 0 < 2 ^ m" by simp
  from Suc.prems have "f m = 0 \<or> f m = 1" by (metis le_SucE le_zero_eq less_Suc_eq One_nat_def)
  then have "push_bit m (f m) < 2 ^ Suc m" by (auto simp: push_bit_eq_mult)
  moreover from ih have "fold (\<lambda>j byte. byte OR push_bit j (f j)) [0..<m] 0 < 2 ^ Suc m" by simp
  ultimately show ?case by (simp add: or_less_2p del: power_Suc)
qed

lemma data_byte_less:
  assumes "\<forall>b\<in>set data_bits. b \<le> 1" and "i + 8 \<le> length data_bits"
  shows "data_byte data_bits i < 256"
proof -
  have "\<forall>j<8. data_bits ! (i + j) \<le> 1" using assms by simp
  from fold_or_less [of 8 "\<lambda>j. data_bits ! (i + j)", OF this]
  show ?thesis by (simp add: data_byte_def)
qed

lemma size_byte_less:
  assumes "\<forall>b\<in>set size_bits. b \<le> 1"
  shows "size_byte size_bits i < 256"
proof -
  let ?f = "\<lambda>j. if i + j < length size_bits then size_bits ! (i + j) else 0"
  have eq: "size_byte size_bits i = fold (\<lambda>j byte. byte OR push_bit j (?f j)) [0..<8] 0"
    unfolding size_byte_def by (rule fold_cong) auto
  have "\<forall>j<8. ?f j \<le> 1" using assms by simp
  from fold_or_less [of 8 ?f, OF this] show ?thesis unfolding eq by simp
qed

section \<open>The embedding loop\<close>

lemma length_embedded: "length (embedded bits px m) = length px"
  by (simp add: embedded_def)

lemma embedded_nth:
  "c < length px \<Longrightarrow>
   embedded bits px m ! c = (if c < m then (px ! c AND 254) OR of_nat (bits ! c) else px ! c)"
  by (simp add: embedded_def)

lemma embedded_0: "embedded bits px 0 = px"
  by (simp add: embedded_def map_nth)

lemma embedded_step:
  assumes "m < length px"
  shows "(embedded bits px m)[m := (embedded bits px m ! m AND 254) OR of_nat (bits ! m)]
         = embedded bits px (Suc m)"
  using assms
  by (intro nth_equalityI) (auto simp: length_embedded embedded_nth nth_list_update less_Suc_eq)

lemma hide_pixel_embedded:
  assumes "idx + 3 \<le> length bits" and "idx = 3 * (i * w + j)" and "idx + 3 \<le> length px"
  shows "hide_pixel bits idx w i j (embedded bits px idx) = embedded bits px (idx + 3)"
proof -
  have c: "chan w i j k = idx + k" for k using assms(2) by (simp add: chan_def)
  have m: "min 3 (length bits - idx) = 3" using assms(1) by simp
  have s0: "(embedded bits px idx)[idx := (embedded bits px idx ! idx AND 254) OR of_nat (bits ! idx)]
            = embedded bits px (Suc idx)"
    using assms(3) by (intro embedded_step) simp
  have s1: "(embedded bits px (Suc idx))[Suc idx := (embedded bits px (Suc idx) ! Suc idx AND 254) OR of_nat (bits ! Suc idx)]
            = embedded bits px (Suc (Suc idx))"
    using assms(3) by (intro embedded_step) simp
  have s2: "(embedded bits px (Suc (Suc idx)))[Suc (Suc idx) := (embedded bits px (Suc (Suc idx)) ! Suc (Suc idx) AND 254) OR of_nat (bits ! Suc (Suc idx))]
            = embedded bits px (Suc (Suc (Suc idx)))"
    using assms(3) by (intro embedded_step) simp
  show ?thesis
    unfolding hide_pixel_def m upt3 c
    by (simp add: s0 s1 s2 numeral_2_eq_2 numeral_3_eq_3)
qed

lemma hide_row_embedded:
  assumes "length bits mod 3 = 0"
  shows "idx = 3 * (i * w + j) \<Longrightarrow> idx \<le> length bits \<Longrightarrow> 3 * (i * w + j + n) \<le> length px \<Longrightarrow>
         hide_row bits w i n j (idx, embedded bits px idx)
         = (min (idx + 3 * n) (length bits), embedded bits px (min (idx + 3 * n) (length bits)))"
proof (induction n arbitrary: j idx)
  case 0
  then show ?case by simp
next
  case (Suc n)
  show ?case
  proof (cases "idx < length bits")
    case False
    with Suc.prems show ?thesis by simp
  next
    case True
    have "idx mod 3 = 0" using Suc.prems(1) by simp
    with True assms have le: "idx + 3 \<le> length bits" by presburger
    have hp: "hide_pixel bits idx w i j (embedded bits px idx) = embedded bits px (idx + 3)"
      using le Suc.prems by (intro hide_pixel_embedded) simp_all
    have "hide_row bits w i n (Suc j) (idx + 3, embedded bits px (idx + 3))
          = (min (idx + 3 + 3 * n) (length bits), embedded bits px (min (idx + 3 + 3 * n) (length bits)))"
      using le Suc.prems by (intro Suc.IH) simp_all
    then show ?thesis using True hp by (simp add: add.assoc)
  qed
qed

lemma hide_rows_embedded:
  assumes "length bits mod 3 = 0"
  shows "3 * (i * w) \<le> length bits \<Longrightarrow> 3 * ((i + m) * w) \<le> length px \<Longrightarrow>
         hide_rows bits w m i (3 * (i * w), embedded bits px (3 * (i * w)))
         = (min (3 * ((i + m) * w)) (length bits),
            embedded bits px (min (3 * ((i + m) * w)) (length bits)))"
proof (induction m arbitrary: i)
  case 0
  then show ?case by simp
next
  case (Suc m)
  have row: "hide_row bits w i w 0 (3 * (i * w), embedded bits px (3 * (i * w)))
             = (min (3 * (i * w) + 3 * w) (length bits),
                embedded bits px (min (3 * (i * w) + 3 * w) (length bits)))"
    using Suc.prems
    by (intro hide_row_embedded [OF assms]) (simp_all add: algebra_simps)
  have e: "3 * (i * w) + 3 * w = 3 * (Suc i * w)" by (simp add: algebra_simps)
  show ?case
  proof (cases "length bits \<le> 3 * (Suc i * w)")
    case True
    have "3 * (Suc i * w) \<le> 3 * ((i + Suc m) * w)" by simp
    with True have "min (3 * ((i + Suc m) * w)) (length bits) = length bits" by linarith
    moreover from True have "min (3 * (Suc i * w)) (length bits) = length bits" by simp
    ultimately show ?thesis using row unfolding e by simp
  next
    case False
    then have m1: "min (3 * (Suc i * w)) (length bits) = 3 * (Suc i * w)" by simp
    have "hide_rows bits w m (Suc i) (3 * (Suc i * w), embedded bits px (3 * (Suc i * w)))
          = (min (3 * ((Suc i + m) * w)) (length bits),
             embedded bits px (min (3 * ((Suc i + m) * w)) (length bits)))"
      using False Suc.prems by (intro Suc.IH) simp_all
    then show ?thesis using row False unfolding e m1 by simp
  qed
qed

section \<open>The extraction loops\<close>

lemma take_lsb_Suc:
  "c < length px \<Longrightarrow> take (Suc c) (map lsb px) = take c (map lsb px) @ [lsb (px ! c)]"
  by (simp add: take_Suc_conv_app_nth)

lemma read_pixel_take:
  assumes "a = 3 * (i * w + j)" and "a + 3 \<le> length px"
  shows "take a (map lsb px) @ read_pixel w i j px = take (a + 3) (map lsb px)"
proof -
  have c: "chan w i j k = a + k" for k using assms(1) by (simp add: chan_def)
  have "take (Suc (Suc (Suc a))) (map lsb px)
        = take a (map lsb px) @ [lsb (px ! a), lsb (px ! Suc a), lsb (px ! Suc (Suc a))]"
    using assms(2) by (simp add: take_lsb_Suc)
  then show ?thesis
    unfolding read_pixel_def upt3 c by (simp add: numeral_3_eq_3)
qed

lemma read_row_take:
  "a = 3 * (i * w + j) \<Longrightarrow> a \<le> 30 \<Longrightarrow> 3 * (i * w + j + n) \<le> length px \<Longrightarrow>
   read_row w i n j px (take a (map lsb px)) = take (min (a + 3 * n) 33) (map lsb px)"
proof (induction n arbitrary: j a)
  case 0
  then show ?case by simp
next
  case (Suc n)
  have le: "a + 3 \<le> length px" using Suc.prems by simp
  have rp: "take a (map lsb px) @ read_pixel w i j px = take (a + 3) (map lsb px)"
    using Suc.prems(1) le by (rule read_pixel_take)
  have len: "length (take (a + 3) (map lsb px)) = a + 3" using le by simp
  show ?case
  proof (cases "32 \<le> a + 3")
    case True
    with Suc.prems have "a = 30" by presburger
    then show ?thesis using rp len by simp
  next
    case False
    with Suc.prems have a30: "a + 3 \<le> 30" by presburger
    have "read_row w i n (Suc j) px (take (a + 3) (map lsb px))
          = take (min (a + 3 + 3 * n) 33) (map lsb px)"
      using Suc.prems a30 by (intro Suc.IH) simp_all
    then show ?thesis using False rp len by (simp add: add.assoc)
  qed
qed

lemma read_rows_take:
  "3 * (i * w) \<le> 30 \<Longrightarrow> 3 * ((i + m) * w) \<le> length px \<Longrightarrow>
   read_rows w m i px (take (3 * (i * w)) (map lsb px))
   = take (min (3 * ((i + m) * w)) 33) (map lsb px)"
proof (induction m arbitrary: i)
  case 0
  then show ?case by simp
next
  case (Suc m)
  have e: "3 * (i * w) + 3 * w = 3 * (Suc i * w)" by (simp add: algebra_simps)
  have row: "read_row w i w 0 px (take (3 * (i * w)) (map lsb px))
             = take (min (3 * (Suc i * w)) 33) (map lsb px)"
    using Suc.prems read_row_take [of "3 * (i * w)" i w 0 w px]
    by (simp add: algebra_simps)
  have lenpx: "3 * (Suc i * w) \<le> length px"
    using Suc.prems(2) by (simp add: algebra_simps)
  then have len: "length (take (min (3 * (Suc i * w)) 33) (map lsb px)) = min (3 * (Suc i * w)) 33"
    by simp
  show ?case
  proof (cases "32 \<le> 3 * (Suc i * w)")
    case True
    then have t: "33 \<le> 3 * (Suc i * w)" by presburger
    have "3 * (Suc i * w) \<le> 3 * ((i + Suc m) * w)" by simp
    with t have "min (3 * ((i + Suc m) * w)) 33 = 33" by linarith
    moreover from t have "min (3 * (Suc i * w)) 33 = 33" by simp
    ultimately show ?thesis using row len by simp
  next
    case False
    then have s: "3 * (Suc i * w) \<le> 30" by presburger
    then have m1: "min (3 * (Suc i * w)) 33 = 3 * (Suc i * w)" by simp
    have "read_rows w m (Suc i) px (take (3 * (Suc i * w)) (map lsb px))
          = take (min (3 * ((Suc i + m) * w)) 33) (map lsb px)"
      using s Suc.prems by (intro Suc.IH) simp_all
    then show ?thesis using row len False unfolding m1 by simp
  qed
qed

lemma first_scan:
  assumes "wf_image img"
  shows "read_rows (width img) (height img) 0 (pixels img) []
         = take (min (length (pixels img)) 33) (map lsb (pixels img))"
proof -
  have len: "length (pixels img) = 3 * ((0 + height img) * width img)"
    using assms by (simp add: wf_image_def)
  have "read_rows (width img) (height img) 0 (pixels img) (take (3 * (0 * width img)) (map lsb (pixels img)))
        = take (min (3 * ((0 + height img) * width img)) 33) (map lsb (pixels img))"
    by (rule read_rows_take) (simp_all add: len)
  then show ?thesis unfolding len [symmetric] by simp
qed

lemma read_channels_take:
  assumes "a = 3 * (i * width img + j)" and "a + 3 \<le> length (pixels img)" and "a < need"
  shows "read_channels img need i j (take a (map lsb (pixels img)))
         = take (min (a + 3) need) (map lsb (pixels img))"
proof -
  have c: "chan (width img) i j k = a + k" for k using assms(1) by (simp add: chan_def)
  have l: "length (take a (map lsb (pixels img))) = a" using assms(2) by simp
  have a3: "a + 3 = Suc (Suc (Suc a))" by simp
  consider "need = Suc a" | "need = Suc (Suc a)" | "Suc (Suc (Suc a)) \<le> need"
    using assms(3) by linarith
  then show ?thesis
  proof cases
    case 1
    then show ?thesis unfolding read_channels_def upt3 c using assms(2) l
      by (simp add: take_lsb_Suc)
  next
    case 2
    then show ?thesis unfolding read_channels_def upt3 c using assms(2) l
      by (simp add: take_lsb_Suc)
  next
    case 3
    then have "min (a + 3) need = Suc (Suc (Suc a))" by simp
    then show ?thesis unfolding read_channels_def upt3 c a3 using assms(2) l 3
      by (simp add: take_lsb_Suc)
  qed
qed

lemma read_rest_done: "need \<le> length eb \<Longrightarrow> read_rest img need eb = Inr eb"
  by (subst read_rest.simps) simp

lemma read_rest_zero:
  "length eb < need \<Longrightarrow> width img = 0 \<Longrightarrow> read_rest img need eb = Inl ZeroDivisionError"
  by (subst read_rest.simps) simp

lemma read_rest_end:
  "length eb < need \<Longrightarrow> 0 < width img \<Longrightarrow> height img \<le> (length eb div 3) div width img \<Longrightarrow>
   read_rest img need eb = Inr eb"
  by (subst read_rest.simps) simp

lemma read_rest_step:
  "length eb < need \<Longrightarrow> 0 < width img \<Longrightarrow> \<not> height img \<le> (length eb div 3) div width img \<Longrightarrow>
   read_rest img need eb
   = read_rest img need
       (read_channels img need ((length eb div 3) div width img) ((length eb div 3) mod width img) eb)"
  by (subst read_rest.simps) (simp add: Let_def)

lemma read_rest_take:
  assumes "wf_image img" and "0 < width img"
  shows "a \<le> length (pixels img) \<Longrightarrow> a mod 3 = 0 \<or> need \<le> a \<Longrightarrow>
         read_rest img need (take a (map lsb (pixels img)))
         = Inr (take (max a (min need (length (pixels img)))) (map lsb (pixels img)))"
proof (induction "need - a" arbitrary: a rule: less_induct)
  case less
  let ?L = "map lsb (pixels img)"
  have l: "length (take a ?L) = a" using less.prems(1) by simp
  have len: "length (pixels img) = 3 * (height img * width img)"
    using assms(1) by (simp add: wf_image_def)
  show ?case
  proof (cases "a < need")
    case False
    then have "read_rest img need (take a ?L) = Inr (take a ?L)"
      by (intro read_rest_done) (simp only: l)
    moreover have "max a (min need (length (pixels img))) = a" using False by simp
    ultimately show ?thesis by simp
  next
    case True
    with less.prems(2) have m3: "a mod 3 = 0" by simp
    define p where "p = a div 3"
    have a: "a = 3 * p" using m3 unfolding p_def by presburger
    show ?thesis
    proof (cases "height img \<le> p div width img")
      case True
      then have "height img * width img \<le> p"
        using less_eq_div_iff_mult_less_eq [OF assms(2), of "height img" p] by simp
      then have e: "a = length (pixels img)" using less.prems(1) a len by simp
      have "read_rest img need (take a ?L) = Inr (take a ?L)"
      proof -
        have c1: "length (take a ?L) < need" using \<open>a < need\<close> unfolding l by assumption
        have c3: "height img \<le> (length (take a ?L) div 3) div width img"
          using True unfolding l p_def by assumption
        show ?thesis by (rule read_rest_end [OF c1 assms(2) c3])
      qed
      moreover have "max a (min need (length (pixels img))) = a"
        using e \<open>a < need\<close> by simp
      ultimately show ?thesis by simp
    next
      case False
      then have "p < height img * width img"
        using less_eq_div_iff_mult_less_eq [OF assms(2), of "height img" p] by simp
      then have le: "a + 3 \<le> length (pixels img)" using a len by simp
      have rc: "read_channels img need (p div width img) (p mod width img) (take a ?L)
                = take (min (a + 3) need) ?L"
        using le \<open>a < need\<close> a by (intro read_channels_take) simp_all
      have "read_rest img need (take (min (a + 3) need) ?L)
            = Inr (take (max (min (a + 3) need) (min need (length (pixels img)))) ?L)"
        using le \<open>a < need\<close> m3 by (intro less.hyps) (auto simp: min_def)
      moreover have "max (min (a + 3) need) (min need (length (pixels img)))
                     = max a (min need (length (pixels img)))"
        using le \<open>a < need\<close> by (simp add: min_def max_def)
      moreover have "read_rest img need (take a ?L)
            = read_rest img need (read_channels img need (p div width img) (p mod width img) (take a ?L))"
      proof -
        have c1: "length (take a ?L) < need" using \<open>a < need\<close> unfolding l by assumption
        have c3: "\<not> height img \<le> (length (take a ?L) div 3) div width img"
          using False unfolding l p_def by assumption
        show ?thesis using read_rest_step [OF c1 assms(2) c3] by (simp only: l p_def)
      qed
      ultimately show ?thesis using rc by simp
    qed
  qed
qed

lemma hide_data_in_image_SomeD:
  assumes "wf_image img" and "hide_data_in_image img data = Some out"
  obtains pre where "to_bytes4 (length data) = Inr pre"
    and "max_bytes img \<ge> length data + 8"
    and "length (payload_bits pre data) \<le> length (pixels img)"
    and "out = img\<lparr>pixels := embedded (payload_bits pre data) (pixels img) (length (payload_bits pre data))\<rparr>"
proof -
  from assms(2) obtain pre where pre: "to_bytes4 (length data) = Inr pre"
    by (auto simp: hide_data_in_image_def split: sum.splits)
  then have l4: "length pre = 4" by (rule length_to_bytes4)
  from assms(2) pre have cap: "can_hide_data img (length (pre @ data))"
    by (auto simp: hide_data_in_image_def Let_def split: if_splits)
  then have mb: "max_bytes img \<ge> length data + 8"
    by (simp add: can_hide_data_def l4)
  let ?bits = "payload_bits pre data"
  have m3: "length ?bits mod 3 = 0" by (simp add: payload_bits_def length_pad_bits_mod)
  have len: "length (pixels img) = 3 * ((0 + height img) * width img)"
    using assms(1) by (simp add: wf_image_def)
  have "8 * (length data + 8) \<le> width img * height img * 3"
    using mb unfolding max_bytes_def by (simp add: less_eq_div_iff_mult_less_eq)
  moreover have "length ?bits < 8 * (length data + 4) + 3"
    using length_pad_bits_lt [of "to_bits (pre @ data)"]
    by (simp add: payload_bits_def length_to_bits l4)
  ultimately have le: "length ?bits \<le> length (pixels img)"
    unfolding len by (simp add: algebra_simps)
  have "hide_rows ?bits (width img) (height img) 0
          (3 * (0 * width img), embedded ?bits (pixels img) (3 * (0 * width img)))
        = (min (3 * ((0 + height img) * width img)) (length ?bits),
           embedded ?bits (pixels img) (min (3 * ((0 + height img) * width img)) (length ?bits)))"
    by (rule hide_rows_embedded [OF m3]) (simp_all add: len)
  then have "hide_rows ?bits (width img) (height img) 0 (0, pixels img)
             = (length ?bits, embedded ?bits (pixels img) (length ?bits))"
    using le unfolding len [symmetric] by (simp add: embedded_0 min_absorb2)
  then have "out = img\<lparr>pixels := embedded ?bits (pixels img) (length ?bits)\<rparr>"
    using assms(2) pre cap
    by (simp add: hide_data_in_image_def Let_def payload_bits_def)
  with pre mb le show thesis by (rule that)
qed

lemma hide_data_in_image_succeeds:
  assumes "length data < 2 ^ 32" and "max_bytes img \<ge> length data + 8"
  shows "\<exists>out. hide_data_in_image img data = Some out"
  using assms
  by (simp add: hide_data_in_image_def to_bytes4_def can_hide_data_def Let_def split: prod.splits)

lemma hide_data_in_image_fails:
  assumes "max_bytes img < length data + 8"
  shows "hide_data_in_image img data = None"
  using assms
  by (auto simp: hide_data_in_image_def to_bytes4_def can_hide_data_def Let_def split: sum.splits)

lemma payload_bits_le1: "x \<in> set (payload_bits pre data) \<Longrightarrow> x \<le> 1"
  unfolding payload_bits_def by (rule pad_bits_le1) (auto dest: to_bits_le1)

lemma lsb_embedded:
  assumes "\<forall>x\<in>set bits. x \<le> 1" and "length bits \<le> length px"
  shows "take (length bits) (map lsb (embedded bits px (length bits))) = bits"
proof (rule nth_equalityI)
  show "length (take (length bits) (map lsb (embedded bits px (length bits)))) = length bits"
    using assms(2) by (simp add: length_embedded)
next
  fix c
  assume "c < length (take (length bits) (map lsb (embedded bits px (length bits))))"
  then have c: "c < length bits" by simp
  then have "bits ! c \<le> 1" using assms(1) by simp
  then show "take (length bits) (map lsb (embedded bits px (length bits))) ! c = bits ! c"
    using c assms(2) by (simp add: length_embedded embedded_nth lsb_set)
qed

lemma size_bytes_to_bits:
  assumes "length pre = 4"
  shows "map (\<lambda>i. of_nat (size_byte (to_bits pre) i)) [0, 8, 16, 24] = pre"
proof -
  obtain a b c d where pre: "pre = [a, b, c, d]"
    using assms by (auto simp: length_Suc_conv numeral_eq_Suc)
  have "size_byte (to_bits pre) (8 * q) = unat (pre ! q)" if "q < 4" for q
    using that assms by (intro size_byte_to_bits) simp
  from this [of 0] this [of 1] this [of 2] this [of 3]
  show ?thesis by (simp add: pre)
qed

lemma extract_body_wf:
  assumes "wf_image img" and "0 < width img"
  defines "L \<equiv> map lsb (pixels img)"
  defines "need \<equiv> 32 + from_bytes (map (\<lambda>i. of_nat (size_byte (take 32 L) i)) [0, 8, 16, 24]) * 8"
  shows "extract_body img = Inr (bits_to_bytes (drop 32 (take need L)))"
proof -
  let ?n = "length (pixels img)"
  have fs: "read_rows (width img) (height img) 0 (pixels img) [] = take (min ?n 33) L"
    unfolding L_def by (rule first_scan [OF assms(1)])
  have sb: "take 32 (take (min ?n 33) L) = take 32 L"
    by (simp add: min_def L_def)
  have m3: "min ?n 33 mod 3 = 0"
    using assms(1) by (auto simp: wf_image_def min_def)
  have rr: "read_rest img need (take (min ?n 33) L) = Inr (take (max (min ?n 33) (min need ?n)) L)"
    unfolding L_def using m3 by (intro read_rest_take [OF assms(1,2)]) simp_all
  have "32 \<le> need" by (simp add: need_def)
  then have "take need (take (max (min ?n 33) (min need ?n)) L) = take need L"
    by (auto simp: L_def min_def max_def)
  then have "py_slice (take (max (min ?n 33) (min need ?n)) L) 32 need = drop 32 (take need L)"
    by (simp add: py_slice_def drop_take [symmetric])
  moreover have "extract_body img
        = (case read_rest img need (take (min ?n 33) L) of
             Inl e \<Rightarrow> Inl e
           | Inr eb \<Rightarrow> Inr (bits_to_bytes (py_slice eb 32 need)))"
    unfolding extract_body_def Let_def fs sb need_def ..
  ultimately show ?thesis
    using rr by simp
qed

lemma hide_extract_roundtrip:
  assumes "wf_image img" and "hide_data_in_image img data = Some out"
  shows "extract_data_from_image out = data"
proof -
  from assms obtain pre where pre: "to_bytes4 (length data) = Inr pre"
    and mb: "max_bytes img \<ge> length data + 8"
    and le: "length (payload_bits pre data) \<le> length (pixels img)"
    and out: "out = img\<lparr>pixels := embedded (payload_bits pre data) (pixels img) (length (payload_bits pre data))\<rparr>"
    by (rule hide_data_in_image_SomeD)
  let ?bits = "payload_bits pre data"
  let ?L = "map lsb (pixels out)"
  have l4: "length pre = 4" using pre by (rule length_to_bytes4)
  have wf: "wf_image out" using assms(1) by (simp add: out wf_image_def length_embedded)
  have "0 < max_bytes img" using mb by simp
  then have w: "0 < width out" by (cases "width img = 0") (simp_all add: out max_bytes_def)
  have tb: "length (to_bits (pre @ data)) = 32 + length data * 8"
    by (simp add: length_to_bits l4)
  have ge: "32 + length data * 8 \<le> length ?bits"
    using length_pad_bits_ge [of "to_bits (pre @ data)"] tb by (simp add: payload_bits_def)
  have "take (length ?bits) (map lsb (embedded ?bits (pixels img) (length ?bits))) = ?bits"
    using le by (intro lsb_embedded) (auto dest: payload_bits_le1)
  then have "take (length ?bits) ?L = ?bits"
    by (simp add: out)
  then have "take (32 + length data * 8) (take (length ?bits) ?L) = take (32 + length data * 8) ?bits"
    by simp
  then have tk: "take (32 + length data * 8) ?L = to_bits (pre @ data)"
    using ge tb by (simp add: min_absorb1 payload_bits_def take_pad_bits)
  have "take 32 (take (32 + length data * 8) ?L) = take 32 (to_bits (pre @ data))"
    by (simp only: tk)
  then have t32: "take 32 ?L = to_bits pre"
    by (simp add: to_bits_append length_to_bits l4)
  have sz: "from_bytes (map (\<lambda>i. of_nat (size_byte (take 32 ?L) i)) [0, 8, 16, 24]) = length data"
    unfolding t32 size_bytes_to_bits [OF l4] using pre by (rule from_to_bytes4)
  have "extract_body out = Inr (bits_to_bytes (drop 32 (take (32 + length data * 8) ?L)))"
    using extract_body_wf [OF wf w] unfolding sz .
  also have "drop 32 (take (32 + length data * 8) ?L) = to_bits data"
    unfolding tk by (simp add: to_bits_append length_to_bits l4)
  finally show ?thesis
    by (simp add: extract_data_from_image_def bits_to_bytes_to_bits)
qed

section \<open>The cipher envelope: round trip and bad magic\<close>

lemma length_pad16: "length (pad data 16) mod 16 = 0"
proof -
  have "(length data + (16 - length data mod 16)) mod 16 = 0"
    by presburger
  then show ?thesis by (simp add: pad_def Let_def)
qed

lemma unpad_pad16: "unpad (pad data 16) 16 = Inr data"
proof -
  define p where "p = 16 - length data mod 16"
  have p: "1 \<le> p" "p \<le> 16" by (simp_all add: p_def)
  have pd: "pad data 16 = data @ replicate p (of_nat p)"
    by (simp add: pad_def p_def Let_def)
  have ne: "replicate p (of_nat p :: byte) \<noteq> []" using p by simp
  have l: "length (data @ replicate p (of_nat p :: byte)) = length data + p" by simp
  have m: "(length data + p) mod 16 = 0" using length_pad16 [of data] unfolding pd by simp
  have u: "unat (of_nat p :: byte) = p" using p by (simp add: unat_of_nat)
  have la: "last (data @ replicate p (of_nat p :: byte)) = of_nat p"
    using ne p by (simp add: last_replicate)
  show ?thesis
    unfolding pd unpad_def Let_def l la u using p m by simp
qed

lemma startswith_append: "startswith (p @ xs) p"
  by (simp add: startswith_def)

text \<open>
  C5. For every plaintext, password, 16-byte salt and 16-byte initialization vector,
  \<open>encrypt_data\<close> returns an envelope and \<open>decrypt_data\<close> with the same password
  returns the plaintext. What is assumed of the libraries: the derived key has 32 bytes, the
  CBC ciphertext is as long as its input, and decryption under the same key and vector
  inverts encryption on the padded plaintext.
\<close>

theorem cipher_roundtrip:
  assumes "length salt = 16" and "length iv = 16"
    and "length (pbkdf2 lib pw salt) = 32"
    and "length (aes_cbc_encrypt lib (pbkdf2 lib pw salt) iv (pad data 16)) = length (pad data 16)"
    and "aes_cbc_decrypt lib (pbkdf2 lib pw salt) iv
           (aes_cbc_encrypt lib (pbkdf2 lib pw salt) iv (pad data 16)) = pad data 16"
  shows "\<exists>blob. encrypt_data lib data pw salt iv = Inr blob \<and> decrypt_data lib blob pw = Inr data"
proof -
  let ?key = "pbkdf2 lib pw salt"
  let ?ct = "aes_cbc_encrypt lib ?key iv (pad data 16)"
  let ?blob = "ENCRYPTION_HEADER @ salt @ iv @ ?ct"
  have new: "aes_new ?key iv = Inr (?key, iv)"
    using assms(2,3) by (simp add: aes_new_def)
  have enc: "encrypt_data lib data pw salt iv = Inr ?blob"
    by (simp add: encrypt_data_def derive_key_def new cipher_encrypt_def length_pad16)
  have h: "length ENCRYPTION_HEADER = 12" by (simp add: ENCRYPTION_HEADER_def)
  have d: "drop (length ENCRYPTION_HEADER) ?blob = salt @ iv @ ?ct" by simp
  have s: "take 16 (salt @ iv @ ?ct) = salt" using assms(1) by simp
  have i: "py_slice (salt @ iv @ ?ct) 16 32 = iv" using assms(1,2) by (simp add: py_slice_def)
  have c: "drop 32 (salt @ iv @ ?ct) = ?ct" using assms(1,2) by simp
  have m: "length ?ct mod 16 = 0" using assms(4) by (simp add: length_pad16)
  have dec: "cipher_decrypt lib (?key, iv) ?ct = Inr (pad data 16)"
    using m assms(5) by (simp add: cipher_decrypt_def)
  have "decrypt_data lib ?blob pw = Inr data"
    unfolding decrypt_data_def Let_def d s i c
    by (simp add: startswith_append derive_key_def new dec unpad_pad16)
  with enc show ?thesis by blast
qed

theorem cipher_roundtrip_witness:
  "encrypt_data toy [104, 105] ''secret'' (replicate 16 1) (replicate 16 2)
     = Inr (ENCRYPTION_HEADER @ replicate 16 1 @ replicate 16 2 @ [105, 106] @ replicate 14 15)
   \<and> decrypt_data toy (ENCRYPTION_HEADER @ replicate 16 1 @ replicate 16 2 @ [105, 106] @ replicate 14 15) ''secret''
     = Inr [104, 105]"
proof -
  have p: "pad [104, 105 :: byte] 16 = [104, 105] @ replicate 14 14"
    by (simp add: pad_def)
  have e: "encrypt_data toy [104, 105] ''secret'' (replicate 16 1) (replicate 16 2)
     = Inr (ENCRYPTION_HEADER @ replicate 16 1 @ replicate 16 2 @ [105, 106] @ replicate 14 15)"
    by (simp add: encrypt_data_def derive_key_def aes_new_def cipher_encrypt_def p toy_def)
  from cipher_roundtrip [of "replicate 16 1" "replicate 16 2" toy "''secret''" "[104, 105]"]
  have "\<exists>blob. encrypt_data toy [104, 105] ''secret'' (replicate 16 1) (replicate 16 2) = Inr blob
          \<and> decrypt_data toy blob ''secret'' = Inr [104, 105]"
    by (simp add: p toy_def)
  with e show ?thesis by auto
qed

text \<open>
  C6. For every byte string that does not start with the 12-byte marker and every password,
  \<open>decrypt_data\<close> raises \<open>ValueError("Invalid data format")\<close>, the format error.
\<close>

theorem bad_magic:
  "\<not> startswith b ENCRYPTION_HEADER \<Longrightarrow> decrypt_data lib b pw = Inl (ValueError ''Invalid data format'')"
  by (simp add: decrypt_data_def)

theorem bad_magic_witness:
  "\<not> startswith [73, 78, 86, 73, 83, 73, 79, 86, 65, 85, 76, 0, 1, 2] ENCRYPTION_HEADER
   \<and> decrypt_data toy [73, 78, 86, 73, 83, 73, 79, 86, 65, 85, 76, 0, 1, 2] ''secret''
       = Inl (ValueError ''Invalid data format'')"
proof -
  have n: "\<not> startswith [73, 78, 86, 73, 83, 73, 79, 86, 65, 85, 76, 0, 1, 2] ENCRYPTION_HEADER"
    by (simp add: startswith_def ENCRYPTION_HEADER_def)
  from n bad_magic [OF n, of toy "''secret''"] show ?thesis by simp
qed

section \<open>The LSB codec: capacity, frame and round trip\<close>

lemma embedding_bits_eq:
  "to_bytes4 (length data) = Inr pre \<Longrightarrow> embedding_bits data = payload_bits pre data"
  by (simp add: embedding_bits_def)

lemma length_payload_bits:
  assumes "length pre = 4"
  shows "length (payload_bits pre data) = 3 * ((32 + 8 * length data + 2) div 3)"
proof -
  let ?n = "32 + 8 * length data"
  have l: "length (to_bits (pre @ data)) = ?n" using assms by (simp add: length_to_bits)
  have "length (payload_bits pre data) mod 3 = 0"
    by (simp add: payload_bits_def length_pad_bits_mod)
  moreover have "?n \<le> length (payload_bits pre data)"
    using length_pad_bits_ge [of "to_bits (pre @ data)"] l by (simp add: payload_bits_def)
  moreover have "length (payload_bits pre data) < ?n + 3"
    using length_pad_bits_lt [of "to_bits (pre @ data)"] l by (simp add: payload_bits_def)
  ultimately show ?thesis by presburger
qed

lemma payload_bits_pad:
  assumes "length pre = 4" and "32 + 8 * length data \<le> c" and "c < length (payload_bits pre data)"
  shows "payload_bits pre data ! c = 0"
proof -
  have l: "length (to_bits (pre @ data)) = 32 + 8 * length data"
    using assms(1) by (simp add: length_to_bits)
  show ?thesis
    using assms(2,3) unfolding payload_bits_def pad_bits_eq
    by (simp add: nth_append l)
qed

text \<open>
  C3, as the code has it. When the embedding succeeds on an image, the output has the
  dimensions of the input. The loop writes the padded bit array: the \<open>32 + 8 n\<close> bits of
  the prefix and the payload, then the zero bits that pad them to a multiple of 3, so that
  it consumes \<open>3 * ceil((32 + 8 n) / 3)\<close> channels in scan order (row-major pixels,
  channels R, G, B), a whole number of pixels. Each consumed channel becomes
  \<open>(p & 254) | bit\<close>: only its least significant bit can change, and a channel that
  receives a padding bit has it cleared. Every channel past the consumed range is exactly as
  it was, and the upper seven bits of every channel of the output equal those of the input.
\<close>

theorem embed_frame:
  assumes "wf_image img" and "hide_data_in_image img data = Some out"
  shows "height out = height img \<and> width out = width img
       \<and> length (pixels out) = length (pixels img)
       \<and> length (embedding_bits data) = 3 * ((32 + 8 * length data + 2) div 3)
       \<and> length (embedding_bits data) \<le> length (pixels img)
       \<and> (\<forall>c < length (embedding_bits data).
             pixels out ! c = (pixels img ! c AND 254) OR of_nat (embedding_bits data ! c))
       \<and> (\<forall>c < length (embedding_bits data).
             32 + 8 * length data \<le> c \<longrightarrow> pixels out ! c = pixels img ! c AND 254)
       \<and> (\<forall>c < length (pixels img).
             length (embedding_bits data) \<le> c \<longrightarrow> pixels out ! c = pixels img ! c)
       \<and> (\<forall>c < length (pixels img). pixels out ! c AND 254 = pixels img ! c AND 254)"
proof -
  from assms obtain pre where pre: "to_bytes4 (length data) = Inr pre"
    and le: "length (payload_bits pre data) \<le> length (pixels img)"
    and out: "out = img\<lparr>pixels := embedded (payload_bits pre data) (pixels img) (length (payload_bits pre data))\<rparr>"
    by (rule hide_data_in_image_SomeD)
  have eb: "embedding_bits data = payload_bits pre data" using pre by (rule embedding_bits_eq)
  have l4: "length pre = 4" using pre by (rule length_to_bytes4)
  have px: "pixels out = embedded (embedding_bits data) (pixels img) (length (embedding_bits data))"
    by (simp add: out eb)
  have b1: "embedding_bits data ! c \<le> 1" if "c < length (embedding_bits data)" for c
    using that payload_bits_le1 [of "embedding_bits data ! c" pre data] by (simp add: eb)
  have upper: "pixels out ! c AND 254 = pixels img ! c AND 254" if "c < length (pixels img)" for c
  proof (cases "c < length (embedding_bits data)")
    case True
    then show ?thesis using that b1 [OF True] by (simp add: px embedded_nth upper_bits_set)
  next
    case False
    then show ?thesis using that by (simp add: px embedded_nth)
  qed
  have padc: "pixels out ! c = pixels img ! c AND 254"
    if "c < length (embedding_bits data)" and "32 + 8 * length data \<le> c" for c
  proof -
    have "embedding_bits data ! c = 0"
      using that payload_bits_pad [OF l4, of data c] by (simp add: eb)
    then show ?thesis using that(1) le by (simp add: px embedded_nth eb)
  qed
  show ?thesis
    using le upper padc
    by (simp add: out eb length_embedded embedded_nth length_payload_bits [OF l4])
qed

lemma hide_data_in_image_eq:
  assumes "wf_image img" and "to_bytes4 (length data) = Inr pre" and "length data + 8 \<le> max_bytes img"
  shows "hide_data_in_image img data
         = Some (img\<lparr>pixels := embedded (payload_bits pre data) (pixels img) (length (payload_bits pre data))\<rparr>)"
proof -
  from assms(2) have "length data < 2 ^ 32" by (simp add: to_bytes4_def split: if_splits)
  with assms(3) obtain out where out: "hide_data_in_image img data = Some out"
    using hide_data_in_image_succeeds by blast
  from assms(1) out obtain pre' where "to_bytes4 (length data) = Inr pre'"
    and "out = img\<lparr>pixels := embedded (payload_bits pre' data) (pixels img) (length (payload_bits pre' data))\<rparr>"
    by (rule hide_data_in_image_SomeD)
  with assms(2) out show ?thesis by simp
qed

lemma replicate_num: "replicate (numeral k) x = x # replicate (pred_numeral k) x"
  by (simp add: numeral_eq_Suc)

lemma bits_255: "payload_bits [0, 0, 0, 1] [255] = replicate 24 0 @ [1] @ replicate 7 0 @ replicate 8 1 @ [0, 0]"
  by (simp add: payload_bits_def pad_bits_eq to_bits_def byte_bits_def upt8 drop_bit_eq_div replicate_num)

lemma emb_white:
  "embedded (replicate 24 0 @ [1] @ replicate 7 0 @ replicate 8 1 @ [0, 0]) (replicate 72 255) 42
   = replicate 24 254 @ [255] @ replicate 7 254 @ replicate 8 255 @ replicate 2 254
       @ replicate 30 (255::byte)"
  by (simp add: embedded_def replicate_num)

lemma hide_4x6_white:
  "hide_data_in_image img_4x6_white [255]
   = Some \<lparr>height = 4, width = 6,
           pixels = replicate 24 254 @ [255] @ replicate 7 254 @ replicate 8 255
                      @ replicate 2 254 @ replicate 30 255\<rparr>"
proof -
  have wf: "wf_image img_4x6_white" by (simp add: wf_image_def img_4x6_white_def)
  have pre: "to_bytes4 (length [255 :: byte]) = Inr [0, 0, 0, 1]" by (simp add: to_bytes4_def)
  have mb: "length [255 :: byte] + 8 \<le> max_bytes img_4x6_white"
    by (simp add: max_bytes_def img_4x6_white_def)
  show ?thesis
    unfolding hide_data_in_image_eq [OF wf pre mb] bits_255
    using emb_white by (simp add: img_4x6_white_def)
qed

theorem embed_frame_witness:
  "wf_image img_4x6_white
   \<and> hide_data_in_image img_4x6_white [255]
       = Some \<lparr>height = 4, width = 6,
               pixels = replicate 24 254 @ [255] @ replicate 7 254 @ replicate 8 255
                          @ replicate 2 254 @ replicate 30 255\<rparr>
   \<and> length (embedding_bits [255]) = 42
   \<and> length (pixels img_4x6_white) = 72"
proof -
  have wf: "wf_image img_4x6_white" by (simp add: wf_image_def img_4x6_white_def)
  from embed_frame [OF wf hide_4x6_white] wf hide_4x6_white show ?thesis
    by (simp add: img_4x6_white_def)
qed

text \<open>
  C3, on the channels that receive the padding. For the one-byte payload \<open>[255]\<close> on a
  4 x 6 carrier whose channels are all 255, the 40 bits of prefix and payload end at
  channel 39; channels 40 and 41, which come after every payload bit, go from 255 to 254.
\<close>

theorem embed_pad_counterexample:
  "hide_data_in_image img_4x6_white [255]
     = Some \<lparr>height = 4, width = 6,
             pixels = replicate 24 254 @ [255] @ replicate 7 254 @ replicate 8 255
                        @ replicate 2 254 @ replicate 30 255\<rparr>
   \<and> 32 + 8 * length [255 :: byte] = 40
   \<and> pixels img_4x6_white ! 40 = 255
   \<and> (replicate 24 254 @ [255] @ replicate 7 254 @ replicate 8 255
        @ replicate 2 254 @ replicate 30 (255::byte)) ! 40 = 254
   \<and> pixels img_4x6_white ! 41 = 255
   \<and> (replicate 24 254 @ [255] @ replicate 7 254 @ replicate 8 255
        @ replicate 2 254 @ replicate 30 (255::byte)) ! 41 = 254"
  using hide_4x6_white by (simp add: img_4x6_white_def nth_append)

text \<open>
  C4. When the pixel grid holds fewer than \<open>32 + 8 n\<close> bits, \<open>n\<close> being the length
  its first 32 bits declare, \<open>extract_data_from_image\<close> returns the bytes assembled from
  every bit after the first 32 that the grid holds (whole bytes only), and the body of its
  \<open>try\<close> block raises nothing when the image has a positive width. (With a width of 0 the
  division in the second scan raises, the \<open>except\<close> clause catches it and \<open>b''\<close> is
  returned, which is again what the zero bits collected assemble to.)
\<close>

theorem truncated_extract:
  assumes "wf_image img" and "length (pixels img) < 32 + declared_size img * 8"
  shows "extract_data_from_image img = bits_to_bytes (drop 32 (map lsb (pixels img)))
       \<and> (0 < width img \<longrightarrow>
            extract_body img = Inr (bits_to_bytes (drop 32 (map lsb (pixels img)))))"
proof (cases "0 < width img")
  case True
  have "extract_body img
        = Inr (bits_to_bytes (drop 32 (take (32 + declared_size img * 8) (map lsb (pixels img)))))"
    using extract_body_wf [OF assms(1) True] by (simp only: declared_size_def)
  moreover have "take (32 + declared_size img * 8) (map lsb (pixels img)) = map lsb (pixels img)"
    using assms(2) by simp
  ultimately show ?thesis by (simp add: extract_data_from_image_def)
next
  case False
  then have w: "width img = 0" by simp
  then have e: "pixels img = []" using assms(1) by (simp add: wf_image_def)
  have fs: "read_rows (width img) (height img) 0 (pixels img) [] = []"
    using first_scan [OF assms(1)] by (simp add: e)
  have z: "size_byte [] i = 0" for i by (simp add: size_byte_def upt8)
  have "read_rest img 32 [] = Inl ZeroDivisionError"
    by (rule read_rest_zero) (simp_all add: w)
  then have "extract_body img = Inl ZeroDivisionError"
    by (simp add: extract_body_def Let_def fs z from_bytes_def)
  then show ?thesis using w by (simp add: extract_data_from_image_def e bits_to_bytes_def range8_def)
qed

theorem truncated_extract_witness:
  "wf_image img_2x7 \<and> declared_size img_2x7 = 2 \<and> length (pixels img_2x7) = 42
   \<and> extract_data_from_image img_2x7 = [255]"
proof -
  have wf: "wf_image img_2x7" by (simp add: wf_image_def img_2x7_def)
  have ds: "declared_size img_2x7 = 2" by code_simp
  have len: "length (pixels img_2x7) = 42" by (simp add: img_2x7_def)
  have lt: "length (pixels img_2x7) < 32 + declared_size img_2x7 * 8" by (simp add: ds len)
  have b: "bits_to_bytes (drop 32 (map lsb (pixels img_2x7))) = [255]" by code_simp
  from truncated_extract [OF wf lt] wf ds len b show ?thesis by simp
qed

text \<open>
  C2, evaluated at the boundary. A 4 x 4 image has \<open>max_bytes = 6 = 2 + 4\<close>. The check
  \<open>can_hide_data\<close> on the payload length, as \<open>_hide_files\<close> makes it, accepts a payload
  of 2 bytes; \<open>hide_data_in_image\<close> returns False for it, since it passes the length of
  the payload with its prefix to the same check, which then reserves the 4 bytes again. A
  payload of 3 bytes is refused as well.
\<close>

theorem capacity_boundary_rejected:
  "max_bytes img_4x4 = length [104, 105 :: byte] + 4
   \<and> can_hide_data img_4x4 (length [104, 105 :: byte])
   \<and> hide_data_in_image img_4x4 [104, 105] = None
   \<and> hide_data_in_image img_4x4 [104, 105, 33] = None"
  by (simp add: img_4x4_def max_bytes_def can_hide_data_def hide_data_in_image_def to_bytes4_def)

text \<open>
  C1, evaluated on a carrier with \<open>max_bytes = 9 = 5 + 4\<close>: for the payload
  \<open>b"hello"\<close> the embedding returns False and saves no image, so there is nothing to
  extract from.
\<close>

theorem roundtrip_rejected:
  "wf_image img_4x6_white
   \<and> max_bytes img_4x6_white \<ge> length [104, 101, 108, 108, 111 :: byte] + 4
   \<and> hide_data_in_image img_4x6_white [104, 101, 108, 108, 111] = None"
  by (simp add: img_4x6_white_def wf_image_def max_bytes_def can_hide_data_def hide_data_in_image_def to_bytes4_def)

section \<open>Archives: packing and unpacking\<close>

lemma to_bytes4_iff: "to_bytes4 n = Inr bs \<longleftrightarrow> n < 2 ^ 32 \<and> bs = be32 n"
  by (auto simp: to_bytes4_def be32_def)

lemma length_be32: "length (be32 n) = 4"
  by (simp add: be32_def)

lemma from_bytes_be32: "n < 2 ^ 32 \<Longrightarrow> from_bytes (be32 n) = n"
  by (rule from_to_bytes4) (simp add: to_bytes4_iff)

lemma pack_records_eq:
  "pack_records rs acc = Inr out \<longleftrightarrow>
     (\<forall>r\<in>set rs. length r < 2 ^ 32) \<and> out = acc @ concat (map block rs)"
proof (induction rs arbitrary: acc)
  case Nil
  show ?case by auto
next
  case (Cons r rs)
  show ?case
  proof (cases "length r < 2 ^ 32")
    case True
    then have "to_bytes4 (length r) = Inr (be32 (length r))" by (simp add: to_bytes4_iff)
    then show ?thesis using True by (simp add: Cons.IH block_def)
  next
    case False
    then have "to_bytes4 (length r) = Inl OverflowError" by (simp add: to_bytes4_def)
    then show ?thesis using False by simp
  qed
qed

lemma pack_archive_eq:
  "pack_archive rs = Inr data \<longleftrightarrow>
     length rs < 2 ^ 32 \<and> (\<forall>r\<in>set rs. length r < 2 ^ 32)
     \<and> data = be32 (length rs) @ concat (map block rs)"
proof (cases "length rs < 2 ^ 32")
  case True
  then have "to_bytes4 (length rs) = Inr (be32 (length rs))" by (simp add: to_bytes4_iff)
  then show ?thesis using True by (simp add: pack_archive_def pack_records_eq)
next
  case False
  then have "to_bytes4 (length rs) = Inl OverflowError" by (simp add: to_bytes4_def)
  then show ?thesis using False by (simp add: pack_archive_def)
qed

lemma unpack_blocks_concat:
  "\<forall>r\<in>set rs. length r < 2 ^ 32 \<Longrightarrow> length rs \<le> n \<Longrightarrow>
   unpack_blocks (pre @ concat (map block rs)) n (length pre) = rs"
proof (induction rs arbitrary: n pre)
  case Nil
  then show ?case by (cases n) simp_all
next
  case (Cons r rs)
  from Cons.prems(2) obtain n' where n: "n = Suc n'" and n': "length rs \<le> n'"
    by (cases n) simp_all
  let ?rest = "concat (map block rs)"
  let ?data = "pre @ concat (map block (r # rs))"
  have d: "?data = pre @ be32 (length r) @ r @ ?rest" by (simp add: block_def)
  have lt: "\<not> length ?data \<le> length pre" unfolding d by (simp add: length_be32)
  have sz: "py_slice ?data (length pre) (length pre + 4) = be32 (length r)"
    unfolding d by (simp add: py_slice_def length_be32)
  have r: "length r < 2 ^ 32" using Cons.prems(1) by simp
  have fs: "from_bytes (be32 (length r)) = length r" using r by (rule from_bytes_be32)
  have fd: "py_slice ?data (length pre + 4) (length pre + 4 + length r) = r"
    unfolding d by (simp add: py_slice_def length_be32)
  have "unpack_blocks ((pre @ be32 (length r) @ r) @ ?rest) n' (length (pre @ be32 (length r) @ r)) = rs"
    using Cons.prems(1) n' by (intro Cons.IH) simp_all
  then have "unpack_blocks ?data n' (length pre + 4 + length r) = rs"
    unfolding d by (simp add: length_be32 add.assoc)
  then show ?case
    unfolding n unpack_blocks.simps Let_def using lt by (simp only: sz fs fd if_False)
qed

lemma unpack_blocks_archive:
  assumes "c < 2 ^ 32" and "length rs \<le> c" and "\<forall>r\<in>set rs. length r < 2 ^ 32"
  shows "unpack_blocks (be32 c @ concat (map block rs))
           (from_bytes (py_slice (be32 c @ concat (map block rs)) 0 4)) 4 = rs"
proof -
  have "py_slice (be32 c @ concat (map block rs)) 0 4 = be32 c"
    by (simp add: py_slice_def length_be32)
  then have n: "from_bytes (py_slice (be32 c @ concat (map block rs)) 0 4) = c"
    using assms(1) by (simp add: from_bytes_be32)
  show ?thesis
    unfolding n using unpack_blocks_concat [OF assms(3,2), of "be32 c"]
    by (simp add: length_be32)
qed

lemma save_record_offset:
  "save_record lib out i r (s\<lparr>offset := k\<rparr>) = (save_record lib out i r s)\<lparr>offset := k\<rparr>"
  by (simp add: save_record_def split: sum.splits prod.splits)

lemma save_all_offset:
  "save_all lib out i rs (s\<lparr>offset := k\<rparr>) = (save_all lib out i rs s)\<lparr>offset := k\<rparr>"
  by (induction rs arbitrary: i s) (simp_all add: save_record_offset)

lemma offset_save_record: "offset (save_record lib out i r s) = offset s"
  by (simp add: save_record_def split: sum.splits prod.splits)

lemma extract_loop_save_all:
  "extract_loop lib out data n i s
   = (save_all lib out i (unpack_blocks data n (offset s)) s)
       \<lparr>offset := offset (extract_loop lib out data n i s)\<rparr>"
proof (induction n arbitrary: i s)
  case 0
  show ?case by simp
next
  case (Suc n)
  show ?case
  proof (cases "length data \<le> offset s")
    case True
    then show ?thesis by simp
  next
    case False
    define k where "k = offset s + 4 + from_bytes (py_slice data (offset s) (offset s + 4))"
    define r where "r = py_slice data (offset s + 4) k"
    define s' where "s' = save_record lib out i r (s\<lparr>offset := k\<rparr>)"
    have o: "offset s' = k" by (simp add: s'_def offset_save_record)
    have step: "extract_loop lib out data (Suc n) i s = extract_loop lib out data n (Suc i) s'"
      using False by (simp add: Let_def s'_def r_def k_def)
    have blocks: "unpack_blocks data (Suc n) (offset s) = r # unpack_blocks data n k"
      using False by (simp add: Let_def r_def k_def)
    have "extract_loop lib out data n (Suc i) s'
          = (save_all lib out (Suc i) (unpack_blocks data n k) s')
              \<lparr>offset := offset (extract_loop lib out data n (Suc i) s')\<rparr>"
      using Suc.IH [of "Suc i" s'] by (simp only: o)
    then show ?thesis
      unfolding step blocks
      by (simp add: s'_def save_record_offset save_all_offset)
  qed
qed


lemma extract_file_data_None:
  "extract_file_data lib data None
   = (case json_loads lib (py_slice data 4 (4 + from_bytes (py_slice data 0 4))) of
        Inl e \<Rightarrow>
          (case e of
             JSONDecodeError \<Rightarrow> Inl (ValueError ''Invalid metadata format'')
           | _ \<Rightarrow> Inl e)
      | Inr metadata \<Rightarrow> Inr (metadata, drop (4 + from_bytes (py_slice data 0 4)) data))"
  by (simp add: extract_file_data_def Let_def)


lemma unpack_files_archive:
  assumes "c < 2 ^ 32" and "length rs \<le> c" and "\<forall>r\<in>set rs. length r < 2 ^ 32"
    and "data = be32 c @ concat (map block rs)"
    and "s = save_all lib out 0 rs
               \<lparr>offset = 4, extracted_files = [],
                status_log = log0 @ [Found_hidden_files c], files = fs\<rparr>"
  shows "unpack_files lib out data log0 fs
         = \<lparr>emitted = status_log s @ [Successfully_extracted (length (extracted_files s))],
            finished_signal = Success (extracted_files s),
            final_files = files s\<rparr>"
proof -
  have "py_slice data 0 4 = be32 c" by (simp add: assms(4) py_slice_def length_be32)
  then have n: "from_bytes (py_slice data 0 4) = c" using assms(1) by (simp add: from_bytes_be32)
  have bl: "unpack_blocks data c 4 = rs"
    using unpack_blocks_archive [OF assms(1,2,3)] n by (simp add: assms(4))
  let ?s0 = "\<lparr>offset = 4, extracted_files = [],
              status_log = log0 @ [Found_hidden_files c], files = fs\<rparr>"
  have "extract_loop lib out data c 0 ?s0
        = s\<lparr>offset := offset (extract_loop lib out data c 0 ?s0)\<rparr>"
    using extract_loop_save_all [of lib out data c 0 ?s0] by (simp add: bl assms(5))
  then have "extracted_files (extract_loop lib out data c 0 ?s0) = extracted_files s"
    and "status_log (extract_loop lib out data c 0 ?s0) = status_log s"
    and "files (extract_loop lib out data c 0 ?s0) = files s"
    by (metis xstate.select_convs xstate.update_convs xstate.surjective)+
  then show ?thesis by (simp add: unpack_files_def Let_def n)
qed






lemma save_record_failure:
  assumes "extract_file_data lib bad None = Inl e"
  shows "save_record lib out i bad s = s\<lparr>status_log := status_log s @ [Error_extracting_file (i + 1) e]\<rparr>"
  by (simp add: save_record_def write_record_def assms)

lemma save_record_same:
  assumes "extracted_files s = extracted_files t" and "files s = files t"
  shows "extracted_files (save_record lib out i r s) = extracted_files (save_record lib out j r t)
       \<and> files (save_record lib out i r s) = files (save_record lib out j r t)"
  using assms by (simp add: save_record_def split: sum.splits prod.splits)

lemma save_all_same:
  "extracted_files s = extracted_files t \<Longrightarrow> files s = files t \<Longrightarrow>
   extracted_files (save_all lib out i rs s) = extracted_files (save_all lib out j rs t)
   \<and> files (save_all lib out i rs s) = files (save_all lib out j rs t)"
proof (induction rs arbitrary: i j s t)
  case Nil
  then show ?case by simp
next
  case (Cons r rs)
  from save_record_same [OF Cons.prems, of lib out i r j]
  show ?case by (simp add: Cons.IH)
qed

lemma save_all_append:
  "save_all lib out i (xs @ ys) s = save_all lib out (i + length xs) ys (save_all lib out i xs s)"
  by (induction xs arbitrary: i s) simp_all

lemma status_log_save_record:
  "set (status_log s) \<subseteq> set (status_log (save_record lib out i r s))"
  by (auto simp: save_record_def split: sum.splits prod.splits)

lemma status_log_save_all:
  "set (status_log s) \<subseteq> set (status_log (save_all lib out i rs s))"
proof (induction rs arbitrary: i s)
  case Nil
  show ?case by simp
next
  case (Cons r rs)
  from status_log_save_record [of s lib out i r] Cons.IH [of "save_record lib out i r s" "Suc i"]
  show ?case by auto
qed

text \<open>
  C9. When one record of an archive cannot be unpacked (its metadata is not JSON, say), the
  run emits the status line "Error extracting file k: ..." for it, with \<open>k\<close> its position
  counted from 1, goes on with the records after it, and finishes with success: it writes
  the same files and reports the same list of paths as the run on the archive without that
  record, and its last status line gives the number of files recovered.
\<close>

theorem record_failure_skipped:
  assumes "pack_archive (before @ [bad] @ after) = Inr data"
    and "extract_file_data lib bad None = Inl e"
  shows "\<exists>data' paths.
           pack_archive (before @ after) = Inr data'
         \<and> finished_signal (unpack_files lib output_dir data log0 fs) = Success paths
         \<and> finished_signal (unpack_files lib output_dir data' log0 fs) = Success paths
         \<and> final_files (unpack_files lib output_dir data log0 fs)
             = final_files (unpack_files lib output_dir data' log0 fs)
         \<and> Error_extracting_file (length before + 1) e
             \<in> set (emitted (unpack_files lib output_dir data log0 fs))
         \<and> last (emitted (unpack_files lib output_dir data log0 fs))
             = Successfully_extracted (length paths)"
proof -
  let ?rs = "before @ [bad] @ after" and ?rs' = "before @ after"
  let ?k = "length ?rs" and ?k' = "length ?rs'"
  from assms(1) have k: "?k < 2 ^ 32" and rb: "\<forall>r\<in>set ?rs. length r < 2 ^ 32"
    and data: "data = be32 ?k @ concat (map block ?rs)"
    by (simp_all add: pack_archive_eq)
  define data' where "data' = be32 ?k' @ concat (map block ?rs')"
  have k': "?k' < 2 ^ 32" using k by simp
  have rb': "\<forall>r\<in>set ?rs'. length r < 2 ^ 32" using rb by simp
  have pack': "pack_archive ?rs' = Inr data'"
    using k' rb' by (simp only: pack_archive_eq data'_def simp_thms)
  define s0 where "s0 = \<lparr>offset = 4, extracted_files = [],
      status_log = log0 @ [Found_hidden_files ?k], files = fs\<rparr>"
  define s0' where "s0' = \<lparr>offset = 4, extracted_files = [],
      status_log = log0 @ [Found_hidden_files ?k'], files = fs\<rparr>"
  define s where "s = save_all lib output_dir 0 ?rs s0"
  define s' where "s' = save_all lib output_dir 0 ?rs' s0'"
  have run: "unpack_files lib output_dir data log0 fs
         = \<lparr>emitted = status_log s @ [Successfully_extracted (length (extracted_files s))],
            finished_signal = Success (extracted_files s),
            final_files = files s\<rparr>"
    by (rule unpack_files_archive [OF k _ rb data]) (simp_all add: s_def s0_def)
  have run': "unpack_files lib output_dir data' log0 fs
         = \<lparr>emitted = status_log s' @ [Successfully_extracted (length (extracted_files s'))],
            finished_signal = Success (extracted_files s'),
            final_files = files s'\<rparr>"
    by (rule unpack_files_archive [OF k' _ rb' data'_def]) (simp_all add: s'_def s0'_def)
  define m where "m = save_all lib output_dir 0 before s0"
  define m' where "m' = save_all lib output_dir 0 before s0'"
  have mm: "extracted_files m = extracted_files m' \<and> files m = files m'"
    unfolding m_def m'_def by (rule save_all_same) (simp_all add: s0_def s0'_def)
  define b where "b = save_record lib output_dir (length before) bad m"
  have b: "b = m\<lparr>status_log := status_log m @ [Error_extracting_file (length before + 1) e]\<rparr>"
    unfolding b_def by (rule save_record_failure [OF assms(2)])
  have s: "s = save_all lib output_dir (Suc (length before)) after b"
    by (simp add: s_def save_all_append m_def b_def)
  have s': "s' = save_all lib output_dir (length before) after m'"
    by (simp add: s'_def save_all_append m'_def)
  have same: "extracted_files s = extracted_files s' \<and> files s = files s'"
    unfolding s s' by (rule save_all_same) (simp_all add: b mm)
  have "Error_extracting_file (length before + 1) e \<in> set (status_log b)" by (simp add: b)
  then have err: "Error_extracting_file (length before + 1) e \<in> set (status_log s)"
    using status_log_save_all [of b lib output_dir "Suc (length before)" after] by (auto simp: s)
  show ?thesis
    using pack' same err
    by (intro exI [of _ data'] exI [of _ "extracted_files s"]) (simp add: run run')
qed

section \<open>Recovered files never replace existing ones\<close>

lemma unique_path_free: "\<not> path_exists fs (unique_path fs base ext counter file_path)"
proof (induction fs base ext counter file_path rule: unique_path.induct)
  case (1 fs base ext counter file_path)
  show ?case
  proof (cases "path_exists fs file_path")
    case True
    then show ?thesis using 1 by (subst unique_path.simps) simp
  next
    case False
    then show ?thesis by (subst unique_path.simps) simp
  qed
qed

lemma unique_path_new: "\<not> path_exists fs file_path \<Longrightarrow> unique_path fs base ext counter file_path = file_path"
  by (subst unique_path.simps) simp

lemma unique_path_suffixed:
  "path_exists fs file_path \<Longrightarrow>
   \<exists>k\<ge>counter. unique_path fs base ext counter file_path = suffixed base ext k
       \<and> (\<forall>j. counter \<le> j \<and> j < k \<longrightarrow> path_exists fs (suffixed base ext j))"
proof (induction fs base ext counter file_path rule: unique_path.induct)
  case (1 fs base ext counter file_path)
  have step: "unique_path fs base ext counter file_path
              = unique_path fs base ext (counter + 1) (suffixed base ext counter)"
    using 1(2) by (subst unique_path.simps) simp
  show ?case
  proof (cases "path_exists fs (suffixed base ext counter)")
    case False
    then have "unique_path fs base ext counter file_path = suffixed base ext counter"
      unfolding step by (rule unique_path_new)
    then show ?thesis by (intro exI [of _ counter]) auto
  next
    case True
    from 1(1) [OF 1(2) True] obtain k where k: "counter + 1 \<le> k"
      and u: "unique_path fs base ext (counter + 1) (suffixed base ext counter) = suffixed base ext k"
      and e: "\<forall>j. counter + 1 \<le> j \<and> j < k \<longrightarrow> path_exists fs (suffixed base ext j)"
      by blast
    have "\<forall>j. counter \<le> j \<and> j < k \<longrightarrow> path_exists fs (suffixed base ext j)"
    proof (intro allI impI)
      fix j assume j: "counter \<le> j \<and> j < k"
      show "path_exists fs (suffixed base ext j)"
      proof (cases "j = counter")
        case True
        then show ?thesis using \<open>path_exists fs (suffixed base ext counter)\<close> by simp
      next
        case False
        with j have "counter + 1 \<le> j \<and> j < k" by simp
        with e show ?thesis by blast
      qed
    qed
    with k u show ?thesis unfolding step by (intro exI [of _ k]) simp
  qed
qed

lemma write_record_Inr:
  assumes "write_record lib output_dir file_data fs = Inr (p, fs')"
  shows "\<not> path_exists fs p \<and> (\<exists>content. fs' = fmupd p content fs)"
  using assms unique_path_free
  by (auto simp: write_record_def Let_def split: sum.splits prod.splits if_splits)

lemma save_record_keeps:
  assumes "path_exists (files s) p"
  shows "fmlookup (files (save_record lib output_dir i r s)) p = fmlookup (files s) p"
proof (cases "write_record lib output_dir r (files s)")
  case (Inl e)
  then show ?thesis by (simp add: save_record_def)
next
  case (Inr v)
  obtain q fs' where v: "v = (q, fs')" by (cases v)
  from write_record_Inr [OF Inr [unfolded v]] obtain content
    where q: "\<not> path_exists (files s) q" and fs': "fs' = fmupd q content (files s)" by blast
  from q assms have "q \<noteq> p" by auto
  then show ?thesis by (simp add: save_record_def Inr v fs')
qed

lemma save_all_keeps:
  "path_exists (files s) p \<Longrightarrow>
   fmlookup (files (save_all lib output_dir i rs s)) p = fmlookup (files s) p"
proof (induction rs arbitrary: i s)
  case Nil
  show ?case by simp
next
  case (Cons r rs)
  have k: "fmlookup (files (save_record lib output_dir i r s)) p = fmlookup (files s) p"
    using Cons.prems by (rule save_record_keeps)
  then have "path_exists (files (save_record lib output_dir i r s)) p"
    using Cons.prems by (simp add: path_exists_def)
  from Cons.IH [OF this] k show ?case by simp
qed

lemma files_extract_loop:
  "files (extract_loop lib out data n i s) = files (save_all lib out i (unpack_blocks data n (offset s)) s)"
proof -
  have "files (extract_loop lib out data n i s)
        = files ((save_all lib out i (unpack_blocks data n (offset s)) s)
                   \<lparr>offset := offset (extract_loop lib out data n i s)\<rparr>)"
    using extract_loop_save_all [of lib out data n i s] by simp
  then show ?thesis by simp
qed

lemma unpack_files_keeps:
  assumes "path_exists fs p"
  shows "fmlookup (final_files (unpack_files lib output_dir data log0 fs)) p = fmlookup fs p"
  using assms by (simp add: unpack_files_def Let_def files_extract_loop save_all_keeps)

lemma extract_files_keeps:
  assumes "path_exists fs p"
  shows "fmlookup (final_files (extract_files lib img output_dir password fs)) p = fmlookup fs p"
  using assms
  by (simp add: extract_files_def Let_def failed_run_def unpack_files_keeps
           split: option.splits sum.splits)

text \<open>
  C10. A run of \<open>_extract_files\<close> leaves every path that existed before it with the
  content it had. A record is only ever written to a path that did not exist: the path
  \<open>os.path.join(output_dir, filename)\<close> itself when it is free, otherwise \<open>base_k\<close> + ext
  for the least \<open>k \<ge> 1\<close> whose name is free (\<open>base_1\<close>, \<open>base_2\<close>, ... all exist below
  it), \<open>base\<close> and \<open>ext\<close> being the two parts \<open>os.path.splitext\<close> gives.
\<close>

theorem existing_files_unchanged:
  "(\<forall>p. path_exists fs p \<longrightarrow>
        fmlookup (final_files (extract_files lib img output_dir password fs)) p = fmlookup fs p)
   \<and> (\<forall>file_data p fs'. write_record lib output_dir file_data fs = Inr (p, fs') \<longrightarrow>
        \<not> path_exists fs p \<and> (\<exists>content. fs' = fmupd p content fs))
   \<and> \<not> path_exists fs (unique_path fs base ext 1 file_path)
   \<and> (\<not> path_exists fs file_path \<longrightarrow> unique_path fs base ext 1 file_path = file_path)
   \<and> (path_exists fs file_path \<longrightarrow>
        (\<exists>k\<ge>1. unique_path fs base ext 1 file_path = suffixed base ext k
           \<and> (\<forall>j. 1 \<le> j \<and> j < k \<longrightarrow> path_exists fs (suffixed base ext j))))"
proof (intro conjI allI impI)
  fix p assume "path_exists fs p"
  then show "fmlookup (final_files (extract_files lib img output_dir password fs)) p = fmlookup fs p"
    by (rule extract_files_keeps)
next
  fix file_data p fs'
  assume w: "write_record lib output_dir file_data fs = Inr (p, fs')"
  from write_record_Inr [OF w] show "\<not> path_exists fs p" by simp
  from write_record_Inr [OF w] show "\<exists>content. fs' = fmupd p content fs" by simp
next
  show "\<not> path_exists fs (unique_path fs base ext 1 file_path)"
    by (rule unique_path_free)
next
  assume "\<not> path_exists fs file_path"
  then show "unique_path fs base ext 1 file_path = file_path"
    by (rule unique_path_new)
next
  assume "path_exists fs file_path"
  then show "\<exists>k\<ge>1. unique_path fs base ext 1 file_path = suffixed base ext k
           \<and> (\<forall>j. 1 \<le> j \<and> j < k \<longrightarrow> path_exists fs (suffixed base ext j))"
    by (rule unique_path_suffixed)
qed

section \<open>The file layer on concrete inputs\<close>





lemma pack_ab: "pack_archive [record_a, record_b] = Inr archive_ab"
  by (simp add: pack_archive_def to_bytes4_def record_a_def record_b_def archive_ab_def)




lemma extract_a: "extract_file_data toy_lib record_a None = Inr (meta_a, [104, 105])"
  by (simp add: extract_file_data_None toy_lib_def record_a_def py_slice_def from_bytes_def)

lemma extract_b: "extract_file_data toy_lib record_b None = Inr (meta_b, [33])"
  by (simp add: extract_file_data_None toy_lib_def record_b_def py_slice_def from_bytes_def)

lemma extract_bad:
  "extract_file_data toy_lib record_bad None = Inl (ValueError ''Invalid metadata format'')"
  by (simp add: extract_file_data_None toy_lib_def record_bad_def py_slice_def from_bytes_def)






lemma pack_a_bad_b: "pack_archive [record_a, record_bad, record_b] = Inr archive_a_bad_b"
  by (simp add: pack_archive_def to_bytes4_def record_a_def record_bad_def record_b_def
        archive_a_bad_b_def)

theorem record_failure_skipped_witness:
  "pack_archive ([record_a] @ [record_bad] @ [record_b]) = Inr archive_a_bad_b
   \<and> extract_file_data toy_lib record_bad None = Inl (ValueError ''Invalid metadata format'')
   \<and> pack_archive ([record_a] @ [record_b]) = Inr archive_ab
   \<and> finished_signal (unpack_files toy_lib ''out'' archive_a_bad_b [Extracting_data] fmempty)
       = finished_signal (unpack_files toy_lib ''out'' archive_ab [Extracting_data] fmempty)
   \<and> Error_extracting_file 2 (ValueError ''Invalid metadata format'')
       \<in> set (emitted (unpack_files toy_lib ''out'' archive_a_bad_b [Extracting_data] fmempty))"
proof -
  have p: "pack_archive ([record_a] @ [record_bad] @ [record_b]) = Inr archive_a_bad_b"
    using pack_a_bad_b by simp
  have p': "pack_archive ([record_a] @ [record_b]) = Inr archive_ab"
    using pack_ab by simp
  from record_failure_skipped [OF p extract_bad, of "''out''" "[Extracting_data]" fmempty]
  show ?thesis using p p' extract_bad by (auto simp: numeral_2_eq_2)
qed

lemma str_nat_1: "str_nat 1 = ''1''"
  by (subst str_nat.simps) (simp add: digit_char_def char_of_def bit_0)

lemma str_nat_2: "str_nat 2 = ''2''"
  by (subst str_nat.simps) (simp add: digit_char_def char_of_def bit_0)

lemma unique_path_step:
  "path_exists fs file_path \<Longrightarrow>
   unique_path fs base ext counter file_path
   = unique_path fs base ext (counter + 1) (suffixed base ext counter)"
  by (subst unique_path.simps) simp

lemma unique_a:
  "unique_path fs_out ''out/a'' ''.txt'' 1 ''out/a.txt'' = ''out/a_2.txt''"
proof -
  have t: "(1::nat) + 1 = 2" by simp
  have e0: "path_exists fs_out ''out/a.txt''" by (simp add: path_exists_def fs_out_def)
  have e1: "path_exists fs_out (suffixed ''out/a'' ''.txt'' 1)"
    unfolding suffixed_def str_nat_1 by (simp add: path_exists_def fs_out_def)
  have e2: "\<not> path_exists fs_out (suffixed ''out/a'' ''.txt'' (1 + 1))"
    unfolding t suffixed_def str_nat_2 by (simp add: path_exists_def fs_out_def)
  have "unique_path fs_out ''out/a'' ''.txt'' 1 ''out/a.txt''
        = unique_path fs_out ''out/a'' ''.txt'' (1 + 1) (suffixed ''out/a'' ''.txt'' 1)"
    using e0 by (rule unique_path_step)
  also have "\<dots> = unique_path fs_out ''out/a'' ''.txt'' (1 + 1 + 1) (suffixed ''out/a'' ''.txt'' (1 + 1))"
    using e1 by (rule unique_path_step)
  also have "\<dots> = suffixed ''out/a'' ''.txt'' (1 + 1)"
    using e2 by (rule unique_path_new)
  finally show ?thesis unfolding t suffixed_def str_nat_2 by simp
qed

lemma str_nat_3: "str_nat 3 = ''3''"
  by (subst str_nat.simps) (simp add: digit_char_def char_of_def bit_0)

lemma splitext_a: "path_splitext toy_lib ''out/a.txt'' = (''out/a'', ''.txt'')"
  by (simp add: toy_lib_def)

lemma unique_a3:
  "unique_path fs_out_a2 ''out/a'' ''.txt'' 1 ''out/a.txt'' = ''out/a_3.txt''"
proof -
  have t: "(1::nat) + 1 = 2" "(2::nat) + 1 = 3" by simp_all
  have e0: "path_exists fs_out_a2 ''out/a.txt''"
    by (simp add: path_exists_def fs_out_a2_def fs_out_def)
  have e1: "path_exists fs_out_a2 (suffixed ''out/a'' ''.txt'' 1)"
    unfolding suffixed_def str_nat_1 by (simp add: path_exists_def fs_out_a2_def fs_out_def)
  have e2: "path_exists fs_out_a2 (suffixed ''out/a'' ''.txt'' (1 + 1))"
    unfolding t suffixed_def str_nat_2 by (simp add: path_exists_def fs_out_a2_def fs_out_def)
  have e3: "\<not> path_exists fs_out_a2 (suffixed ''out/a'' ''.txt'' (1 + 1 + 1))"
    unfolding t suffixed_def str_nat_3 by (simp add: path_exists_def fs_out_a2_def fs_out_def)
  have "unique_path fs_out_a2 ''out/a'' ''.txt'' 1 ''out/a.txt''
        = unique_path fs_out_a2 ''out/a'' ''.txt'' (1 + 1) (suffixed ''out/a'' ''.txt'' 1)"
    using e0 by (rule unique_path_step)
  also have "\<dots> = unique_path fs_out_a2 ''out/a'' ''.txt'' (1 + 1 + 1) (suffixed ''out/a'' ''.txt'' (1 + 1))"
    using e1 by (rule unique_path_step)
  also have "\<dots> = unique_path fs_out_a2 ''out/a'' ''.txt'' (1 + 1 + 1 + 1) (suffixed ''out/a'' ''.txt'' (1 + 1 + 1))"
    using e2 by (rule unique_path_step)
  also have "\<dots> = suffixed ''out/a'' ''.txt'' (1 + 1 + 1)"
    using e3 by (rule unique_path_new)
  finally show ?thesis unfolding t suffixed_def str_nat_3 by simp
qed

lemma write_a: "write_record toy_lib ''out'' record_a fs_out = Inr (''out/a_2.txt'', fs_out_a2)"
proof -
  have j: "join_output toy_lib ''out'' (JStr ''a.txt'') = Inr ''out/a.txt''"
    by (simp add: join_output_def toy_lib_def)
  have s: "subscript_filename meta_a = Inr (JStr ''a.txt'')"
    by (simp add: subscript_filename_def meta_a_def)
  have c: "can_create toy_lib p" for p by (simp add: toy_lib_def)
  show ?thesis
    unfolding write_record_def extract_a
    using unique_a by (simp add: s j splitext_a c fs_out_a2_def Let_def)
qed

lemma write_b: "write_record toy_lib ''out'' record_b fs_out_a2 = Inr (''out/a_3.txt'', fs_out_a3)"
proof -
  have j: "join_output toy_lib ''out'' (JStr ''a.txt'') = Inr ''out/a.txt''"
    by (simp add: join_output_def toy_lib_def)
  have s: "subscript_filename meta_b = Inr (JStr ''a.txt'')"
    by (simp add: subscript_filename_def meta_b_def)
  have c: "can_create toy_lib p" for p by (simp add: toy_lib_def)
  show ?thesis
    unfolding write_record_def extract_b
    using unique_a3 by (simp add: s j splitext_a c fs_out_a3_def Let_def)
qed

lemma basenames:
  "path_basename toy_lib ''out/a_2.txt'' = ''a_2.txt''"
  "path_basename toy_lib ''out/a_3.txt'' = ''a_3.txt''"
  by (simp_all add: toy_lib_def)

lemma run_ab:
  "unpack_files toy_lib ''out'' archive_ab [Extracting_data] fs_out
   = \<lparr>emitted = [Extracting_data, Found_hidden_files 2, Extracted ''a_2.txt'',
                 Extracted ''a_3.txt'', Successfully_extracted 2],
      finished_signal = Success [''out/a_2.txt'', ''out/a_3.txt''],
      final_files = fs_out_a3\<rparr>"
proof -
  let ?s0 = "\<lparr>offset = 4, extracted_files = [],
              status_log = [Extracting_data] @ [Found_hidden_files 2], files = fs_out\<rparr>"
  have s: "save_all toy_lib ''out'' 0 [record_a, record_b] ?s0
           = \<lparr>offset = 4, extracted_files = [''out/a_2.txt'', ''out/a_3.txt''],
              status_log = [Extracting_data, Found_hidden_files 2, Extracted ''a_2.txt'',
                            Extracted ''a_3.txt''],
              files = fs_out_a3\<rparr>"
    by (simp add: save_record_def write_a write_b basenames)
  have d: "archive_ab = be32 2 @ concat (map block [record_a, record_b])"
    by (simp add: archive_ab_def be32_def block_def record_a_def record_b_def)
  have "unpack_files toy_lib ''out'' archive_ab [Extracting_data] fs_out
        = \<lparr>emitted = status_log (save_all toy_lib ''out'' 0 [record_a, record_b] ?s0)
             @ [Successfully_extracted (length (extracted_files (save_all toy_lib ''out'' 0 [record_a, record_b] ?s0)))],
           finished_signal = Success (extracted_files (save_all toy_lib ''out'' 0 [record_a, record_b] ?s0)),
           final_files = files (save_all toy_lib ''out'' 0 [record_a, record_b] ?s0)\<rparr>"
    by (rule unpack_files_archive [OF _ _ _ d refl])
       (simp_all add: record_a_def record_b_def)
  then show ?thesis unfolding s by simp
qed

lemma length_archive_ab: "length archive_ab = 25"
  by (simp add: archive_ab_def record_a_def record_b_def)

lemma extract_stego_ab: "extract_data_from_image stego_ab = archive_ab"
proof -
  have wf: "wf_image carrier_8x11" by (simp add: wf_image_def carrier_8x11_def)
  have "length archive_ab < 2 ^ 32" by (simp add: length_archive_ab)
  moreover have "length archive_ab + 8 \<le> max_bytes carrier_8x11"
    by (simp add: length_archive_ab max_bytes_def carrier_8x11_def)
  ultimately obtain out where out: "hide_data_in_image carrier_8x11 archive_ab = Some out"
    using hide_data_in_image_succeeds by blast
  then have "stego_ab = out" by (simp add: stego_ab_def)
  with hide_extract_roundtrip [OF wf out] show ?thesis by simp
qed

lemma run_stego_ab:
  "extract_files toy_lib stego_ab ''out'' None fs_out
   = \<lparr>emitted = [Extracting_data, Found_hidden_files 2, Extracted ''a_2.txt'',
                 Extracted ''a_3.txt'', Successfully_extracted 2],
      finished_signal = Success [''out/a_2.txt'', ''out/a_3.txt''],
      final_files = fs_out_a3\<rparr>"
proof -
  have ne: "archive_ab \<noteq> []" by (simp add: archive_ab_def)
  have ns: "\<not> startswith archive_ab ENCRYPTION_HEADER"
    by (simp add: startswith_def archive_ab_def ENCRYPTION_HEADER_def)
  show ?thesis
    unfolding extract_files_def Let_def extract_stego_ab using ne ns by (simp add: run_ab)
qed

theorem existing_files_unchanged_witness:
  "extract_data_from_image stego_ab = archive_ab
   \<and> finished_signal (extract_files toy_lib stego_ab ''out'' None fs_out)
       = Success [''out/a_2.txt'', ''out/a_3.txt'']
   \<and> final_files (extract_files toy_lib stego_ab ''out'' None fs_out)
       = fmupd ''out/a_3.txt'' [33] (fmupd ''out/a_2.txt'' [104, 105] fs_out)
   \<and> path_exists fs_out ''out/a.txt''
   \<and> path_exists fs_out ''out/a_1.txt''
   \<and> fmlookup (final_files (extract_files toy_lib stego_ab ''out'' None fs_out)) ''out/a.txt''
       = Some [1]
   \<and> fmlookup (final_files (extract_files toy_lib stego_ab ''out'' None fs_out)) ''out/a_1.txt''
       = Some [2]
   \<and> write_record toy_lib ''out'' record_a fs_out
       = Inr (''out/a_2.txt'', fmupd ''out/a_2.txt'' [104, 105] fs_out)
   \<and> \<not> path_exists fs_out ''out/a_2.txt''
   \<and> unique_path fs_out ''out/a'' ''.txt'' 1 ''out/a.txt'' = ''out/a_2.txt''"
proof -
  note T = existing_files_unchanged
    [of fs_out toy_lib stego_ab "''out''" None "''out/a''" "''.txt''" "''out/a.txt''"]
  have e0: "path_exists fs_out ''out/a.txt''" by (simp add: path_exists_def fs_out_def)
  have e1: "path_exists fs_out ''out/a_1.txt''" by (simp add: path_exists_def fs_out_def)
  have l0: "fmlookup fs_out ''out/a.txt'' = Some [1]" by (simp add: fs_out_def)
  have l1: "fmlookup fs_out ''out/a_1.txt'' = Some [2]" by (simp add: fs_out_def)
  from T e0 l0
  have k0: "fmlookup (final_files (extract_files toy_lib stego_ab ''out'' None fs_out)) ''out/a.txt''
            = Some [1]" by simp
  from T e1 l1
  have k1: "fmlookup (final_files (extract_files toy_lib stego_ab ''out'' None fs_out)) ''out/a_1.txt''
            = Some [2]" by simp
  from T write_a have free: "\<not> path_exists fs_out ''out/a_2.txt''" by blast
  show ?thesis
    using extract_stego_ab e0 e1 k0 k1 free unique_a write_a
    by (simp add: run_stego_ab fs_out_a3_def fs_out_a2_def)
qed

end
